theory Spec2Isabelle
  imports Main "HOL-Library.Word" "HOL-Library.Multiset"
begin

section \<open>The DNS-SD resolution engine (hinting/dns.go)\<close>

subsection \<open>Data\<close>

type_synonym uint16 = "16 word"

text \<open>A \<^verbatim>\<open>net.IP\<close> is carried in its printed form.\<close>

type_synonym IP = string

text \<open>The record types \<^verbatim>\<open>resolveDNS\<close> is called with (\<^verbatim>\<open>dnsRR uint16\<close>).\<close>

datatype rrtype = TypeA | TypePTR | TypeAAAA | TypeSRV | TypeNAPTR

text \<open>\<^verbatim>\<open>dns.SRV\<close> and \<^verbatim>\<open>dns.NAPTR\<close> of the DNS library, with the fields the code reads.\<close>

record SRV =
  Priority :: uint16
  Weight :: uint16
  Port :: uint16
  Target :: string

record NAPTR =
  Order :: uint16
  Preference :: uint16
  Flags :: string
  Service :: string
  Regexp :: string
  Replacement :: string

text \<open>An answer of a response: the cases of the type switch, and any other record type.\<close>

datatype RR =
    PTR_RR string
  | NAPTR_RR NAPTR
  | SRV_RR SRV
  | A_RR IP
  | AAAA_RR IP
  | Other_RR

definition discoveryServiceDNSName :: string where
  "discoveryServiceDNSName = ''_sciondiscovery._tcp''"

definition discoveryDDDSDNSName :: string where
  "discoveryDDDSDNSName = ''x-sciondiscovery:tcp''"

text \<open>
  Configuration the code reads from outside the two source files: the constant
  \<^verbatim>\<open>hinting.DiscoveryPort\<close> and the global \<^verbatim>\<open>cfg.SciondConfigDir\<close>. Both are
  parameters of the model.
\<close>

record config =
  DiscoveryPort :: uint16
  SciondConfigDir :: string

subsection \<open>The randomness source\<close>

text \<open>
  \<^verbatim>\<open>math/rand\<close> is a stream of draws; \<^verbatim>\<open>rand.Intn(n)\<close> takes the next draw and returns a
  value in \<open>[0, n)\<close>. The code calls it with \<open>n = 2\<close> or with the sum of two weights that
  are not both zero, so \<open>n\<close> is positive at every call.
\<close>

type_synonym rand = "nat \<Rightarrow> nat"

definition Intn :: "nat \<Rightarrow> rand \<Rightarrow> nat \<times> rand" where
  "Intn n g = (g 0 mod n, (\<lambda>k. g (Suc k)))"

text \<open>The source that yields the draws of a list, then zeros.\<close>

definition draws :: "nat list \<Rightarrow> rand" where
  "draws ds = (\<lambda>k. if k < length ds then ds ! k else 0)"

subsection \<open>The sort interfaces \<^verbatim>\<open>byPriority\<close> and \<^verbatim>\<open>byOrder\<close>\<close>

text \<open>
  \<^verbatim>\<open>Less(i, j)\<close> reads the slice at two indices and may draw from the randomness source;
  it returns its verdict and the source after the call. The sort calls it only with
  indices below \<^verbatim>\<open>Len()\<close>.
\<close>

type_synonym 'a less_fn = "'a list \<Rightarrow> nat \<Rightarrow> nat \<Rightarrow> rand \<Rightarrow> bool \<times> rand"

definition byPriority_Less :: "SRV less_fn" where
  "byPriority_Less s i j g =
     (if Priority (s ! i) < Priority (s ! j) then (True, g)
      else if Priority (s ! j) < Priority (s ! i) then (False, g)
      else if Weight (s ! i) = 0 \<and> Weight (s ! j) = 0 then
        (let (r, g') = Intn 2 g in (r = 0, g'))
      else
        (let max = unat (Weight (s ! i)) + unat (Weight (s ! j));
             (r, g') = Intn max g
         in (r < unat (Weight (s ! i)), g')))"

definition byOrder_Less :: "NAPTR less_fn" where
  "byOrder_Less s i j g =
     (if Order (s ! i) < Order (s ! j) then (True, g)
      else if Order (s ! j) < Order (s ! i) then (False, g)
      else (Preference (s ! i) < Preference (s ! j), g))"

definition Swap :: "'a list \<Rightarrow> nat \<Rightarrow> nat \<Rightarrow> 'a list" where
  "Swap s i j = s[i := s ! j, j := s ! i]"

subsection \<open>\<^verbatim>\<open>sort.Sort\<close>\<close>

text \<open>
  \<^verbatim>\<open>sort.Sort\<close> belongs to the Go standard library, not to the repository. It reads and
  permutes the slice through \<^verbatim>\<open>Len\<close>, \<^verbatim>\<open>Less\<close> and \<^verbatim>\<open>Swap\<close> only. On a short slice (up to
  six elements in every release, up to twelve in the later ones) it is the library's
  insertion sort
  \<^verbatim>\<open>
  for i := a + 1; i < b; i++ {
      for j := i; j > a && data.Less(j, j-1); j-- {
          data.Swap(j, j-1)
      }
  }
  \<close>
  with \<open>a = 0\<close> and \<open>b = Len()\<close>, which is the model used here for every length.
\<close>

fun insertionLoop :: "'a less_fn \<Rightarrow> nat \<Rightarrow> 'a list \<Rightarrow> rand \<Rightarrow> 'a list \<times> rand" where
  "insertionLoop lessf 0 s g = (s, g)"
| "insertionLoop lessf (Suc k) s g =
     (let (b, g') = lessf s (Suc k) k g
      in if b then insertionLoop lessf k (Swap s (Suc k) k) g' else (s, g'))"

definition insertionSort :: "'a less_fn \<Rightarrow> 'a list \<Rightarrow> rand \<Rightarrow> 'a list \<times> rand" where
  "insertionSort lessf s g =
     fold (\<lambda>i (s, g). insertionLoop lessf i s g) [1..<length s] (s, g)"

definition sort_Sort :: "'a less_fn \<Rightarrow> 'a list \<Rightarrow> rand \<Rightarrow> 'a list \<times> rand" where
  "sort_Sort lessf s g = insertionSort lessf s g"

subsection \<open>State and environment of a resolution pass\<close>

text \<open>
  What a pass does to the outside: a DNS exchange (tagged with the depth of the
  \<^verbatim>\<open>resolveDNS\<close> call that issues it, the query name and the record type), an address sent
  on \<^verbatim>\<open>ipHintsChan\<close>, and an error written to the log. Informational log lines are left
  out, and a send on the channel is taken to be received: a pass whose send is never
  received does not return, and the model has no such pass.
\<close>

datatype event =
    Exchange nat string rrtype
  | Hint IP
  | LogError string

record dns_state =
  rng :: rand
  tick :: nat
  events :: "event list"

text \<open>
  \<^verbatim>\<open>dns.Exchange\<close>: the network's reply to the \<open>tick\<close>-th exchange of the pass, sent to a
  server address with a query name and a record type. A reply is an error or the list of
  answers.
\<close>

type_synonym exchange_fn = "nat \<Rightarrow> string \<Rightarrow> string \<Rightarrow> rrtype \<Rightarrow> string + RR list"

type_synonym resolve_fn = "nat \<Rightarrow> string \<Rightarrow> string \<Rightarrow> rrtype \<Rightarrow> dns_state \<Rightarrow> dns_state option"

definition emit :: "event \<Rightarrow> dns_state \<Rightarrow> dns_state" where
  "emit e st = st\<lparr>events := events st @ [e]\<rparr>"

subsection \<open>\<^verbatim>\<open>resolveDNS\<close>\<close>

text \<open>
  The function calls itself from three loops. The model takes the recursive call as the
  parameter \<open>rec\<close> of each loop and ties the knot in \<open>resolveDNS\<close> below, by recursion
  on a bound on the call depth: \<open>None\<close> says the bound was exceeded. The argument \<open>d\<close>
  is the depth of the running call; it is only written into the events.
\<close>

text \<open>The scan of the answers (the \<^verbatim>\<open>for _, answer := range result.Answer\<close> loop).\<close>

fun scanAnswers :: "resolve_fn \<Rightarrow> config \<Rightarrow> nat \<Rightarrow> string \<Rightarrow> RR list \<Rightarrow>
    SRV list \<times> NAPTR list \<times> dns_state \<Rightarrow> (SRV list \<times> NAPTR list \<times> dns_state) option" where
  "scanAnswers rec C d resolver [] acc = Some acc"
| "scanAnswers rec C d resolver (answer # rest) (serviceRecords, naptrRecords, st) =
     (case answer of
        PTR_RR ptr \<Rightarrow>
          (case rec (Suc d) resolver ptr TypeSRV st of
             None \<Rightarrow> None
           | Some st' \<Rightarrow> scanAnswers rec C d resolver rest (serviceRecords, naptrRecords, st'))
      | NAPTR_RR r \<Rightarrow>
          scanAnswers rec C d resolver rest
            (serviceRecords,
             (if Service r = discoveryDDDSDNSName then naptrRecords @ [r] else naptrRecords),
             st)
      | SRV_RR r \<Rightarrow>
          scanAnswers rec C d resolver rest
            (serviceRecords @ [r], naptrRecords,
             (if SRV.Port r \<noteq> DiscoveryPort C
              then emit (LogError ''DNS announced invalid discovery port'') st else st))
      | A_RR ip \<Rightarrow>
          scanAnswers rec C d resolver rest (serviceRecords, naptrRecords, emit (Hint ip) st)
      | AAAA_RR ip \<Rightarrow>
          scanAnswers rec C d resolver rest (serviceRecords, naptrRecords, emit (Hint ip) st)
      | Other_RR \<Rightarrow>
          scanAnswers rec C d resolver rest (serviceRecords, naptrRecords, st))"

text \<open>The chase of the sorted SRV records.\<close>

fun chaseSRV :: "resolve_fn \<Rightarrow> nat \<Rightarrow> string \<Rightarrow> SRV list \<Rightarrow> dns_state \<Rightarrow> dns_state option" where
  "chaseSRV rec d resolver [] st = Some st"
| "chaseSRV rec d resolver (answer # rest) st =
     (case rec (Suc d) resolver (Target answer) TypeAAAA st of
        None \<Rightarrow> None
      | Some st1 \<Rightarrow>
          (case rec (Suc d) resolver (Target answer) TypeA st1 of
             None \<Rightarrow> None
           | Some st2 \<Rightarrow> chaseSRV rec d resolver rest st2))"

definition chaseServiceRecords ::
    "resolve_fn \<Rightarrow> nat \<Rightarrow> string \<Rightarrow> SRV list \<Rightarrow> dns_state \<Rightarrow> dns_state option" where
  "chaseServiceRecords rec d resolver serviceRecords st =
     (if length serviceRecords > 0 then
        (let (sorted, g') = sort_Sort byPriority_Less serviceRecords (rng st)
         in chaseSRV rec d resolver sorted (st\<lparr>rng := g'\<rparr>))
      else Some st)"

text \<open>The switch on the flags of one NAPTR record, and the chase of the sorted records.\<close>

definition naptrDispatch ::
    "resolve_fn \<Rightarrow> nat \<Rightarrow> string \<Rightarrow> NAPTR \<Rightarrow> dns_state \<Rightarrow> dns_state option" where
  "naptrDispatch rec d resolver answer st =
     (if Flags answer = '''' then
        rec (Suc d) resolver (Replacement answer) TypeNAPTR st
      else if Flags answer = ''A'' then
        (case rec (Suc d) resolver (Replacement answer) TypeAAAA st of
           None \<Rightarrow> None
         | Some st1 \<Rightarrow> rec (Suc d) resolver (Replacement answer) TypeA st1)
      else if Flags answer = ''S'' then
        rec (Suc d) resolver (Replacement answer) TypeSRV st
      else Some st)"

fun chaseNAPTR :: "resolve_fn \<Rightarrow> nat \<Rightarrow> string \<Rightarrow> NAPTR list \<Rightarrow> dns_state \<Rightarrow> dns_state option" where
  "chaseNAPTR rec d resolver [] st = Some st"
| "chaseNAPTR rec d resolver (answer # rest) st =
     (case naptrDispatch rec d resolver answer st of
        None \<Rightarrow> None
      | Some st' \<Rightarrow> chaseNAPTR rec d resolver rest st')"

definition chaseNaptrRecords ::
    "resolve_fn \<Rightarrow> nat \<Rightarrow> string \<Rightarrow> NAPTR list \<Rightarrow> dns_state \<Rightarrow> dns_state option" where
  "chaseNaptrRecords rec d resolver naptrRecords st =
     (if length naptrRecords > 0 then
        (let (sorted, g') = sort_Sort byOrder_Less naptrRecords (rng st)
         in chaseNAPTR rec d resolver sorted (st\<lparr>rng := g'\<rparr>))
      else Some st)"

text \<open>One call of \<^verbatim>\<open>resolveDNS\<close>, with the recursive call as a parameter.\<close>

definition resolveDNS_body :: "resolve_fn \<Rightarrow> exchange_fn \<Rightarrow> config \<Rightarrow> resolve_fn" where
  "resolveDNS_body rec E C d resolver query dnsRR st =
     (let st0 = emit (Exchange d query dnsRR) (st\<lparr>tick := Suc (tick st)\<rparr>)
      in case E (tick st) (resolver @ '':53'') query dnsRR of
           Inl err \<Rightarrow> Some (emit (LogError ''DNS-SD failed'') st0)
         | Inr answers \<Rightarrow>
             (case scanAnswers rec C d resolver answers ([], [], st0) of
                None \<Rightarrow> None
              | Some (serviceRecords, naptrRecords, st1) \<Rightarrow>
                  (case chaseServiceRecords rec d resolver serviceRecords st1 of
                     None \<Rightarrow> None
                   | Some st2 \<Rightarrow> chaseNaptrRecords rec d resolver naptrRecords st2)))"

primrec resolveDNS :: "nat \<Rightarrow> exchange_fn \<Rightarrow> config \<Rightarrow> resolve_fn" where
  "resolveDNS 0 E C = (\<lambda>d resolver query dnsRR st. None)"
| "resolveDNS (Suc n) E C = resolveDNS_body (resolveDNS n E C) E C"

section \<open>The orchestrator and the artifact fetcher (package main)\<close>

subsection \<open>Data\<close>

text \<open>\<^verbatim>\<open>net.TCPAddr\<close>.\<close>

record TCPAddr =
  IP :: IP
  Port :: int
  Zone :: string

text \<open>
  A Go \<^verbatim>\<open>error\<close> is carried by its message; a function that returns \<^verbatim>\<open>error\<close> returns
  \<open>None\<close> for \<^verbatim>\<open>nil\<close>.
\<close>

type_synonym error = string

text \<open>
  An archive as \<^verbatim>\<open>tar.Reader\<close> delivers it: each call of \<^verbatim>\<open>Next\<close> yields an error or a
  header, and the end of the list is \<^verbatim>\<open>io.EOF\<close>. An entry carries the bytes \<^verbatim>\<open>io.Copy\<close> moves
  to the file, and whether the copy ends in an error.
\<close>

record Header =
  Typeflag :: char
  Name :: string

definition TypeReg :: char where "TypeReg = CHR ''0''"
definition TypeDir :: char where "TypeDir = CHR ''5''"

datatype tar_item =
    NextError error
  | NextEntry Header string bool

text \<open>
  A response body, read whole (\<^verbatim>\<open>ioutil.ReadAll\<close>) or as an archive (\<^verbatim>\<open>tar.NewReader\<close>).
\<close>

record body =
  readAll :: "error + string"
  tarItems :: "tar_item list"

datatype http_result =
    RequestFailed
  | Response int body

text \<open>How \<^verbatim>\<open>ioutil.WriteFile\<close> ends: the file is replaced, cannot be opened, or is left
  truncated with a part of the data.\<close>

datatype write_outcome = WriteOk | OpenFailed | WriteFailed string

text \<open>
  The outside of the fetcher: the HTTP server, the topology parser
  (\<^verbatim>\<open>topology.RWTopologyFromJSONBytes\<close>, which lives in another repository), and the file
  system's refusals.
\<close>

record main_env =
  httpGet :: "string \<Rightarrow> http_result"
  validTopology :: "string \<Rightarrow> bool"
  openFails :: "string \<Rightarrow> bool"
  writeFile :: "string \<Rightarrow> write_outcome"

text \<open>
  The state the fetcher changes: the files by path, the URLs requested so far, and the
  errors logged (message and value).
\<close>

record world =
  files :: "string \<rightharpoonup> string"
  requests :: "string list"
  logged :: "(string \<times> string) list"

definition logError :: "string \<Rightarrow> string \<Rightarrow> world \<Rightarrow> world" where
  "logError msg val w = w\<lparr>logged := logged w @ [(msg, val)]\<rparr>"

definition baseURL :: string where "baseURL = ''scion/discovery/v1''"
definition topologyEndpoint :: string where "topologyEndpoint = ''/topology.json''"
definition TRCsEndpoint :: string where "TRCsEndpoint = ''/trcs.tar''"
definition TopologyJSONFileName :: string where "TopologyJSONFileName = ''topology.json''"
definition StatusOK :: int where "StatusOK = 200"

subsection \<open>Library functions on paths and numbers\<close>

text \<open>\<^verbatim>\<open>%d\<close> of \<^verbatim>\<open>fmt.Sprintf\<close>: an integer in decimal.\<close>

definition digit :: "nat \<Rightarrow> char" where
  "digit n = ''0123456789'' ! n"

fun showNat :: "nat \<Rightarrow> string" where
  "showNat n = (if n < 10 then [digit n] else showNat (n div 10) @ [digit (n mod 10)])"

declare showNat.simps [simp del]

definition showInt :: "int \<Rightarrow> string" where
  "showInt i = (if i < 0 then CHR ''-'' # showNat (nat (- i)) else showNat (nat i))"

text \<open>
  \<^verbatim>\<open>filepath.Base\<close> on a system whose separator is the slash: the empty path gives
  \<^verbatim>\<open>"."\<close>; trailing slashes are stripped; what follows the last slash is returned, and
  \<^verbatim>\<open>"/"\<close> if nothing is left.
\<close>

definition Base :: "string \<Rightarrow> string" where
  "Base p =
     (if p = [] then ''.''
      else
        (let p1 = rev (dropWhile (\<lambda>c. c = CHR ''/'') (rev p));
             p2 = rev (takeWhile (\<lambda>c. c \<noteq> CHR ''/'') (rev p1))
         in if p2 = [] then ''/'' else p2))"

text \<open>
  \<^verbatim>\<open>path.Clean\<close>, by its documented rules: runs of slashes are one slash, \<^verbatim>\<open>"."\<close> elements
  are dropped, an inner \<^verbatim>\<open>".."\<close> is dropped with the element before it, a \<^verbatim>\<open>".."\<close> at the
  start of a rooted path is dropped, and the empty result is \<^verbatim>\<open>"."\<close>.
\<close>

fun splitSlash :: "string \<Rightarrow> string list" where
  "splitSlash [] = [[]]"
| "splitSlash (c # cs) =
     (if c = CHR ''/'' then [] # splitSlash cs
      else (case splitSlash cs of e # es \<Rightarrow> (c # e) # es | [] \<Rightarrow> [[c]]))"

fun cleanElems :: "bool \<Rightarrow> string list \<Rightarrow> string list \<Rightarrow> string list" where
  "cleanElems rooted out [] = rev out"
| "cleanElems rooted out (e # es) =
     (if e = [] \<or> e = ''.'' then cleanElems rooted out es
      else if e = ''..'' then
        (case out of
           a # out' \<Rightarrow>
             (if a = ''..'' then cleanElems rooted (e # out) es else cleanElems rooted out' es)
         | [] \<Rightarrow> (if rooted then cleanElems rooted [] es else cleanElems rooted [e] es))
      else cleanElems rooted (e # out) es)"

fun joinSlash :: "string list \<Rightarrow> string" where
  "joinSlash [] = []"
| "joinSlash [e] = e"
| "joinSlash (e # es) = e @ CHR ''/'' # joinSlash es"

definition Clean :: "string \<Rightarrow> string" where
  "Clean p =
     (if p = [] then ''.''
      else
        (let rooted = (hd p = CHR ''/'');
             out = joinSlash (cleanElems rooted [] (splitSlash p))
         in if rooted then CHR ''/'' # out else if out = [] then ''.'' else out))"

text \<open>\<^verbatim>\<open>path.Join\<close>: the non-empty leading elements joined by slashes, then cleaned.\<close>

definition Join :: "string list \<Rightarrow> string" where
  "Join elem =
     (case dropWhile (\<lambda>e. e = []) elem of
        [] \<Rightarrow> []
      | es \<Rightarrow> Clean (joinSlash es))"

subsection \<open>The fetcher\<close>

definition buildTopologyURL :: "IP \<Rightarrow> int \<Rightarrow> string" where
  "buildTopologyURL ip port =
     ''http://'' @ ip @ '':'' @ showInt port @ ''/'' @ (baseURL @ topologyEndpoint)"

definition buildTRCsURL :: "IP \<Rightarrow> int \<Rightarrow> string" where
  "buildTRCsURL ip port =
     ''http://'' @ ip @ '':'' @ showInt port @ ''/'' @ (baseURL @ TRCsEndpoint)"

definition fetchHTTP :: "main_env \<Rightarrow> string \<Rightarrow> world \<Rightarrow> (error + body) \<times> world" where
  "fetchHTTP M url w =
     (let w1 = w\<lparr>requests := requests w @ [url]\<rparr>
      in case httpGet M url of
           RequestFailed \<Rightarrow> (Inl ''HTTP request failed'', w1)
         | Response status res_body \<Rightarrow>
             (if status \<noteq> StatusOK then (Inl ''Status not OK'', w1)
              else (Inr res_body, w1)))"

definition pullTopology :: "main_env \<Rightarrow> config \<Rightarrow> TCPAddr \<Rightarrow> world \<Rightarrow> error option \<times> world" where
  "pullTopology M C addr w =
     (let url = buildTopologyURL (IP addr) (TCPAddr.Port addr)
      in case fetchHTTP M url w of
           (Inl err, w1) \<Rightarrow> (Some err, logError (''Failed to fetch topology from '' @ url) err w1)
         | (Inr r, w1) \<Rightarrow>
             (case readAll r of
                Inl err \<Rightarrow> (Some ''Unable to read from response body'', w1)
              | Inr raw \<Rightarrow>
                  (if \<not> validTopology M raw then
                     (Some ''unable to parse RWTopology from JSON bytes'', w1)
                   else
                     (let topologyPath = Join [SciondConfigDir C, TopologyJSONFileName]
                      in case writeFile M topologyPath of
                           WriteOk \<Rightarrow> (None, w1\<lparr>files := (files w1)(topologyPath \<mapsto> raw)\<rparr>)
                         | OpenFailed \<Rightarrow> (Some ''Bootstrapper could not store topology'', w1)
                         | WriteFailed part \<Rightarrow>
                             (Some ''Bootstrapper could not store topology'',
                              w1\<lparr>files := (files w1)(topologyPath \<mapsto> part)\<rparr>)))))"

text \<open>
  \<^verbatim>\<open>writeTarEntry\<close>: the file is opened with \<^verbatim>\<open>O_CREATE|O_RDWR\<close> (created when absent, not
  truncated) and the entry is copied over its start.
\<close>

definition writeTarEntry ::
    "main_env \<Rightarrow> string \<Rightarrow> string \<Rightarrow> bool \<Rightarrow> world \<Rightarrow> error option \<times> world" where
  "writeTarEntry M trcPath content copyFails w =
     (if openFails M trcPath then (Some ''error creating file to store TRC'', w)
      else
        (let old = (case files w trcPath of None \<Rightarrow> [] | Some c \<Rightarrow> c);
             w1 = w\<lparr>files := (files w)(trcPath \<mapsto> content @ drop (length content) old)\<rparr>
         in if copyFails then (Some ''error writing TRC file'', w1) else (None, w1)))"

text \<open>The loop of \<^verbatim>\<open>pullTRCs\<close> over the archive.\<close>

fun extractTRCs :: "main_env \<Rightarrow> config \<Rightarrow> tar_item list \<Rightarrow> world \<Rightarrow> error option \<times> world" where
  "extractTRCs M C [] w = (None, w)"
| "extractTRCs M C (NextError err # rest) w = (Some ''error reading tar archive'', w)"
| "extractTRCs M C (NextEntry hdr content copyFails # rest) w =
     (if Typeflag hdr = TypeReg then
        (let trcName = Base (Name hdr)
         in if trcName = ''.'' then
              extractTRCs M C rest (logError ''Invalid TRC file name'' (Name hdr) w)
            else
              (let trcPath = Join [SciondConfigDir C, ''certs'', trcName]
               in case writeTarEntry M trcPath content copyFails w of
                    (Some err, w1) \<Rightarrow> (Some ''Bootstrapper could not store TRC'', w1)
                  | (None, w1) \<Rightarrow> extractTRCs M C rest w1))
      else if Typeflag hdr = TypeDir then
        (Some ''TRCs archive must be composed of TRCs only, directory found'', w)
      else
        (Some ''TRCs archive must be composed of TRCs only, unknown type found'', w))"

definition pullTRCs :: "main_env \<Rightarrow> config \<Rightarrow> TCPAddr \<Rightarrow> world \<Rightarrow> error option \<times> world" where
  "pullTRCs M C addr w =
     (let url = buildTRCsURL (IP addr) (TCPAddr.Port addr)
      in case fetchHTTP M url w of
           (Inl err, w1) \<Rightarrow> (Some err, logError (''Failed to fetch TRC from '' @ url) err w1)
         | (Inr r, w1) \<Rightarrow> extractTRCs M C (tarItems r) w1)"

subsection \<open>The orchestrator\<close>

text \<open>
  What the \<^verbatim>\<open>select\<close> of \<^verbatim>\<open>tryBootstrapping\<close> yields first: an address from the shared
  channel, or the deadline. The generators that feed the channel run concurrently and are
  outside the model.
\<close>

datatype select_result = Received TCPAddr | TimedOut

definition tryBootstrapping ::
    "main_env \<Rightarrow> config \<Rightarrow> select_result \<Rightarrow> world \<Rightarrow> error option \<times> world" where
  "tryBootstrapping M C sel w =
     (case sel of
        Received ipAddr \<Rightarrow>
          (let serverAddr =
                 (if TCPAddr.Port ipAddr = 0
                  then ipAddr\<lparr>TCPAddr.Port := uint (DiscoveryPort C)\<rparr> else ipAddr)
           in case pullTopology M C serverAddr w of
                (Some err, w1) \<Rightarrow> (Some err, w1)
              | (None, w1) \<Rightarrow>
                  (case pullTRCs M C serverAddr w1 of
                     (Some err, w2) \<Rightarrow> (Some err, w2)
                   | (None, w2) \<Rightarrow> (None, w2)))
      | TimedOut \<Rightarrow> (Some ''bootstrapper timed out'', w))"

section \<open>Notions used to state the properties\<close>

text \<open>
  The direct calls of a \<^verbatim>\<open>resolveDNS\<close> invocation running at depth \<open>d\<close> are the exchanges
  tagged \<open>Suc d\<close>: every call issues exactly one exchange, its first action. \<open>calls_at k\<close>
  reads the queries issued at depth \<open>k\<close> off a list of events, in order.
\<close>

fun calls_at :: "nat \<Rightarrow> event list \<Rightarrow> (string \<times> rrtype) list" where
  "calls_at k [] = []"
| "calls_at k (Exchange k' q t # es) = (if k' = k then (q, t) # calls_at k es else calls_at k es)"
| "calls_at k (Hint ip # es) = calls_at k es"
| "calls_at k (LogError m # es) = calls_at k es"

text \<open>The answers of a response by record type, in answer order.\<close>

fun ptrAnswers :: "RR list \<Rightarrow> string list" where
  "ptrAnswers [] = []"
| "ptrAnswers (PTR_RR p # as) = p # ptrAnswers as"
| "ptrAnswers (_ # as) = ptrAnswers as"

fun srvAnswers :: "RR list \<Rightarrow> SRV list" where
  "srvAnswers [] = []"
| "srvAnswers (SRV_RR r # as) = r # srvAnswers as"
| "srvAnswers (_ # as) = srvAnswers as"

fun naptrAnswers :: "RR list \<Rightarrow> NAPTR list" where
  "naptrAnswers [] = []"
| "naptrAnswers (NAPTR_RR r # as) = r # naptrAnswers as"
| "naptrAnswers (_ # as) = naptrAnswers as"

text \<open>
  The queries the specification asks for: for a chased SRV record an AAAA query then an A
  query on its target; for a chased NAPTR record the dispatch on its flags.
\<close>

definition srvQueries :: "SRV \<Rightarrow> (string \<times> rrtype) list" where
  "srvQueries r = [(Target r, TypeAAAA), (Target r, TypeA)]"

definition naptrQueries :: "NAPTR \<Rightarrow> (string \<times> rrtype) list" where
  "naptrQueries r =
     (if Flags r = '''' then [(Replacement r, TypeNAPTR)]
      else if Flags r = ''A'' then [(Replacement r, TypeAAAA), (Replacement r, TypeA)]
      else if Flags r = ''S'' then [(Replacement r, TypeSRV)]
      else [])"

text \<open>The orders of the two batches: priority, and (order, preference) lexicographically.\<close>

definition priority_le :: "SRV \<Rightarrow> SRV \<Rightarrow> bool" where
  "priority_le a b = (Priority a \<le> Priority b)"

definition order_le :: "NAPTR \<Rightarrow> NAPTR \<Rightarrow> bool" where
  "order_le a b = (Order a < Order b \<or> (Order a = Order b \<and> Preference a \<le> Preference b))"

text \<open>
  A resolver function is \<open>traced\<close> when a call that returns has appended events only,
  exactly one of them an exchange at its own depth (its query), and none above it.
\<close>

definition traced :: "resolve_fn \<Rightarrow> bool" where
  "traced rec = (\<forall>k res q t st st'. rec k res q t st = Some st' \<longrightarrow>
     (\<exists>new. events st' = events st @ new \<and> calls_at k new = [(q, t)] \<and>
        (\<forall>j. j < k \<longrightarrow> calls_at j new = [])))"

section \<open>Concrete inputs\<close>

text \<open>
  A configuration, a pass state and a small DNS zone: the name \<open>d\<close> answers with two SRV
  records and three NAPTR records (one of them with another service tag), \<open>a\<close> has an
  address, and the lookup of \<open>b\<close> fails.
\<close>

definition C0 :: config where
  "C0 = \<lparr>DiscoveryPort = 8041, SciondConfigDir = ''/etc/scion''\<rparr>"

definition st0 :: dns_state where
  "st0 = \<lparr>rng = draws [], tick = 0, events = []\<rparr>"

definition srvA :: SRV where "srvA = \<lparr>Priority = 10, Weight = 0, Port = 8041, Target = ''a''\<rparr>"

definition srvB :: SRV where "srvB = \<lparr>Priority = 20, Weight = 5, Port = 8041, Target = ''b''\<rparr>"

definition naptrU :: NAPTR where
  "naptrU = \<lparr>Order = 1, Preference = 1, Flags = ''U'', Service = discoveryDDDSDNSName, Regexp = '''', Replacement = ''u''\<rparr>"

definition naptrA :: NAPTR where
  "naptrA = \<lparr>Order = 1, Preference = 0, Flags = ''A'', Service = discoveryDDDSDNSName, Regexp = '''', Replacement = ''a''\<rparr>"

definition naptrX :: NAPTR where
  "naptrX = \<lparr>Order = 0, Preference = 0, Flags = ''A'', Service = ''other'', Regexp = '''', Replacement = ''a''\<rparr>"

definition naptrN :: NAPTR where
  "naptrN = \<lparr>Order = 2, Preference = 0, Flags = '''', Service = discoveryDDDSDNSName, Regexp = '''', Replacement = ''n''\<rparr>"

definition naptrV :: NAPTR where
  "naptrV = \<lparr>Order = 3, Preference = 0, Flags = ''S'', Service = discoveryDDDSDNSName, Regexp = '''', Replacement = ''v''\<rparr>"

definition E0 :: exchange_fn where
  "E0 k server q t =
     (if q = ''d'' then Inr [SRV_RR srvB, NAPTR_RR naptrU, SRV_RR srvA, NAPTR_RR naptrX, NAPTR_RR naptrA]
      else if q = ''a'' \<and> t = TypeA then Inr [A_RR ''10.0.0.5'']
      else if q = ''b'' then Inl ''timeout''
      else Inr [])"

text \<open>
  Two hostile zones: in \<open>loopEnv\<close> every name answers with a NAPTR record that points back
  to the same name; in \<open>growEnv m\<close> a name shorter than \<open>m\<close> answers with a NAPTR record
  that points to the name with one more character in front, and a name of length \<open>m\<close> or
  more has no records.
\<close>

definition loopEnv :: exchange_fn where
  "loopEnv k server q t =
     Inr [NAPTR_RR \<lparr>Order = 0, Preference = 0, Flags = '''', Service = discoveryDDDSDNSName,
            Regexp = '''', Replacement = q\<rparr>]"

definition growEnv :: "nat \<Rightarrow> exchange_fn" where
  "growEnv m k server q t =
     (if length q < m then
        Inr [NAPTR_RR \<lparr>Order = 0, Preference = 0, Flags = '''', Service = discoveryDDDSDNSName,
               Regexp = '''', Replacement = CHR ''x'' # q\<rparr>]
      else Inr [])"




text \<open>
  Two tiers of three SRV records, with weight zero and with weight one, and the eight
  equally likely outcomes of
  three draws of \<^verbatim>\<open>rand.Intn(2)\<close> (the sort of three elements draws at most three times).
  \<open>chased_first\<close> is the target of the record the chase starts with.
\<close>

definition tie3 :: "SRV list" where
  "tie3 = [\<lparr>Priority = 10, Weight = 0, Port = 8041, Target = ''a''\<rparr>,
           \<lparr>Priority = 10, Weight = 0, Port = 8041, Target = ''b''\<rparr>,
           \<lparr>Priority = 10, Weight = 0, Port = 8041, Target = ''c''\<rparr>]"

definition tie3w :: "SRV list" where
  "tie3w = [\<lparr>Priority = 10, Weight = 1, Port = 8041, Target = ''a''\<rparr>,
            \<lparr>Priority = 10, Weight = 1, Port = 8041, Target = ''b''\<rparr>,
            \<lparr>Priority = 10, Weight = 1, Port = 8041, Target = ''c''\<rparr>]"

definition coin_flips3 :: "nat list list" where
  "coin_flips3 = [[0,0,0], [0,0,1], [0,1,0], [0,1,1], [1,0,0], [1,0,1], [1,1,0], [1,1,1]]"

definition chased_first :: "SRV list \<Rightarrow> nat list \<Rightarrow> string list" where
  "chased_first batch ds = map Target (take 1 (fst (sort_Sort byPriority_Less batch (draws ds))))"

text \<open>
  Hints for 10.0.0.5 without a port (\<open>addr0\<close>), with the discovery port (\<open>addr1\<close>) and
  with another port (\<open>addr2\<close>), and a discovery server at 10.0.0.5 on the discovery port:
  \<open>M1\<close> serves a valid topology and an archive with a
  directory entry between two regular files, \<open>M2\<close> a payload that is not a topology, \<open>M3\<close>
  a valid topology and an archive of regular files, one of them with an empty name.
\<close>

definition w0 :: world where
  "w0 = \<lparr>files = Map.empty, requests = [], logged = []\<rparr>"

definition addr0 :: TCPAddr where
  "addr0 = \<lparr>IP = ''10.0.0.5'', Port = 0, Zone = ''''\<rparr>"

definition addr1 :: TCPAddr where
  "addr1 = \<lparr>IP = ''10.0.0.5'', Port = 8041, Zone = ''''\<rparr>"

definition addr2 :: TCPAddr where
  "addr2 = \<lparr>IP = ''10.0.0.5'', Port = 8042, Zone = ''''\<rparr>"

definition archive1 :: "tar_item list" where
  "archive1 = [NextEntry \<lparr>Typeflag = TypeReg, Name = ''bundle/trc1.crt''\<rparr> ''DATA'' False,
               NextEntry \<lparr>Typeflag = TypeDir, Name = ''bundle/''\<rparr> '''' False,
               NextEntry \<lparr>Typeflag = TypeReg, Name = ''trc2.crt''\<rparr> ''MORE'' False]"

definition archive2 :: "tar_item list" where
  "archive2 = [NextEntry \<lparr>Typeflag = TypeReg, Name = ''bundle/trc1.crt''\<rparr> ''DATA'' False,
               NextEntry \<lparr>Typeflag = TypeReg, Name = ''''\<rparr> ''X'' False]"

definition M1 :: main_env where
  "M1 = \<lparr>httpGet = (\<lambda>url.
            if url = ''http://10.0.0.5:8041/scion/discovery/v1/topology.json''
            then Response 200 \<lparr>readAll = Inr ''{}'', tarItems = []\<rparr>
            else if url = ''http://10.0.0.5:8041/scion/discovery/v1/trcs.tar''
            then Response 200 \<lparr>readAll = Inr '''', tarItems = archive1\<rparr>
            else RequestFailed),
          validTopology = (\<lambda>raw. raw = ''{}''),
          openFails = (\<lambda>p. False),
          writeFile = (\<lambda>p. WriteOk)\<rparr>"

definition M2 :: main_env where
  "M2 = \<lparr>httpGet = (\<lambda>url.
            if url = ''http://10.0.0.5:8041/scion/discovery/v1/topology.json''
            then Response 200 \<lparr>readAll = Inr ''not a topology'', tarItems = []\<rparr>
            else RequestFailed),
          validTopology = (\<lambda>raw. raw = ''{}''),
          openFails = (\<lambda>p. False),
          writeFile = (\<lambda>p. WriteOk)\<rparr>"

definition M3 :: main_env where
  "M3 = \<lparr>httpGet = (\<lambda>url.
            if url = ''http://10.0.0.5:8041/scion/discovery/v1/topology.json''
            then Response 200 \<lparr>readAll = Inr ''{}'', tarItems = []\<rparr>
            else if url = ''http://10.0.0.5:8041/scion/discovery/v1/trcs.tar''
            then Response 200 \<lparr>readAll = Inr '''', tarItems = archive2\<rparr>
            else RequestFailed),
          validTopology = (\<lambda>raw. raw = ''{}''),
          openFails = (\<lambda>p. False),
          writeFile = (\<lambda>p. WriteOk)\<rparr>"

section \<open>The sort\<close>

text \<open>
  The insertion sort permutes the slice, and orders it by any transitive relation the
  verdicts of \<^verbatim>\<open>Less\<close> agree with, whatever the randomness source yields.
\<close>

lemma length_Swap [simp]: "length (Swap s i j) = length s"
  by (simp add: Swap_def)

lemma mset_Swap: "i < length s \<Longrightarrow> j < length s \<Longrightarrow> mset (Swap s i j) = mset s"
  unfolding Swap_def by (rule mset_swap)

lemma insertionLoop_length: "length (fst (insertionLoop lessf j s g)) = length s"
  by (induction j arbitrary: s g) (auto split: prod.splits)

lemma insertionLoop_mset: "j < length s \<Longrightarrow> mset (fst (insertionLoop lessf j s g)) = mset s"
  by (induction j arbitrary: s g) (auto split: prod.splits simp: mset_Swap)

lemma insertionLoop_ordered:
  assumes tr: "\<And>x y z. le x y \<Longrightarrow> le y z \<Longrightarrow> le x z"
    and yes: "\<And>s i j g. fst (lessf s i j g) \<Longrightarrow> le (s ! i) (s ! j)"
    and no: "\<And>s i j g. \<not> fst (lessf s i j g) \<Longrightarrow> le (s ! j) (s ! i)"
  shows "i < length s \<Longrightarrow> j \<le> i \<Longrightarrow>
     (\<forall>a b. a < b \<and> b \<le> i \<and> a \<noteq> j \<and> b \<noteq> j \<longrightarrow> le (s ! a) (s ! b)) \<Longrightarrow>
     (\<forall>b. j < b \<and> b \<le> i \<longrightarrow> le (s ! j) (s ! b)) \<Longrightarrow>
     (\<forall>a b. a < b \<and> b \<le> i \<longrightarrow> le (fst (insertionLoop lessf j s g) ! a) (fst (insertionLoop lessf j s g) ! b))"
proof (induction j arbitrary: s g)
  case 0
  then show ?case by (metis fst_conv insertionLoop.simps(1) not_gr_zero not_less_zero)
next
  case (Suc k)
  obtain b g' where bg: "lessf s (Suc k) k g = (b, g')" by (cases "lessf s (Suc k) k g")
  show ?case
  proof (cases b)
    case False
    with bg have le1: "le (s ! k) (s ! Suc k)" using no[of s "Suc k" k g] by simp
    have res: "fst (insertionLoop lessf (Suc k) s g) = s" using bg False by simp
    show ?thesis unfolding res
    proof (intro allI impI)
      fix a c assume ac: "a < c \<and> c \<le> i"
      show "le (s ! a) (s ! c)"
      proof (cases "c = Suc k")
        case True
        show ?thesis
        proof (cases "a = k")
          case True with \<open>c = Suc k\<close> le1 show ?thesis by simp
        next
          case False
          with ac \<open>c = Suc k\<close> have "a < k" by simp
          then have "le (s ! a) (s ! k)" using Suc.prems(3) Suc.prems(2) by auto
          with le1 \<open>c = Suc k\<close> show ?thesis using tr by blast
        qed
      next
        case False
        show ?thesis
        proof (cases "a = Suc k")
          case True with ac Suc.prems(4) show ?thesis by auto
        next
          case False with \<open>c \<noteq> Suc k\<close> ac Suc.prems(3) show ?thesis by auto
        qed
      qed
    qed
  next
    case True
    with bg have le1: "le (s ! Suc k) (s ! k)" using yes[of s "Suc k" k g] by simp
    let ?s = "Swap s (Suc k) k"
    have res: "fst (insertionLoop lessf (Suc k) s g) = fst (insertionLoop lessf k ?s g')"
      using bg True by simp
    have kl: "Suc k < length s" using Suc.prems by simp
    have n1: "?s ! k = s ! Suc k" using kl by (simp add: Swap_def)
    have n2: "?s ! Suc k = s ! k" using kl by (simp add: Swap_def)
    have n3: "\<And>a. a \<noteq> k \<Longrightarrow> a \<noteq> Suc k \<Longrightarrow> ?s ! a = s ! a" by (simp add: Swap_def)
    have A: "\<forall>a b. a < b \<and> b \<le> i \<and> a \<noteq> k \<and> b \<noteq> k \<longrightarrow> le (?s ! a) (?s ! b)"
    proof (intro allI impI)
      fix a c assume h: "a < c \<and> c \<le> i \<and> a \<noteq> k \<and> c \<noteq> k"
      show "le (?s ! a) (?s ! c)"
      proof (cases "c = Suc k")
        case True
        with h have "a < k" by simp
        then have "le (s ! a) (s ! k)" using Suc.prems(3) Suc.prems(2) by auto
        with True h n2 n3[of a] show ?thesis by simp
      next
        case cF: False
        show ?thesis
        proof (cases "a = Suc k")
          case True
          with h have "k < c" "c \<noteq> Suc k" "c \<le> i" by auto
          then have "le (s ! k) (s ! c)" using Suc.prems(3) by auto
          with True n2 n3[of c] h \<open>c \<noteq> Suc k\<close> show ?thesis by simp
        next
          case False
          with cF h show ?thesis using n3 Suc.prems(3) by auto
        qed
      qed
    qed
    have B: "\<forall>b. k < b \<and> b \<le> i \<longrightarrow> le (?s ! k) (?s ! b)"
    proof (intro allI impI)
      fix c assume h: "k < c \<and> c \<le> i"
      show "le (?s ! k) (?s ! c)"
      proof (cases "c = Suc k")
        case True with n1 n2 le1 show ?thesis by simp
      next
        case False
        with h have "Suc k < c" by simp
        then have "le (s ! Suc k) (s ! c)" using Suc.prems(4) h by auto
        with n1 n3[of c] h False show ?thesis by simp
      qed
    qed
    have "\<forall>a b. a < b \<and> b \<le> i \<longrightarrow>
         le (fst (insertionLoop lessf k ?s g') ! a) (fst (insertionLoop lessf k ?s g') ! b)"
      using Suc.IH[of ?s g'] Suc.prems(1,2) A B by simp
    then show ?thesis unfolding res .
  qed
qed

lemma insertionSort_fold:
  assumes tr: "\<And>x y z. le x y \<Longrightarrow> le y z \<Longrightarrow> le x z"
    and yes: "\<And>s i j g. fst (lessf s i j g) \<Longrightarrow> le (s ! i) (s ! j)"
    and no: "\<And>s i j g. \<not> fst (lessf s i j g) \<Longrightarrow> le (s ! j) (s ! i)"
  shows "m \<le> length s \<Longrightarrow>
     length (fst (fold (\<lambda>i (s, g). insertionLoop lessf i s g) [1..<m] (s, g))) = length s \<and>
     mset (fst (fold (\<lambda>i (s, g). insertionLoop lessf i s g) [1..<m] (s, g))) = mset s \<and>
     (\<forall>a b. a < b \<and> b < m \<longrightarrow>
        le (fst (fold (\<lambda>i (s, g). insertionLoop lessf i s g) [1..<m] (s, g)) ! a)
           (fst (fold (\<lambda>i (s, g). insertionLoop lessf i s g) [1..<m] (s, g)) ! b))"
proof (induction m)
  case 0
  then show ?case by simp
next
  case (Suc m)
  show ?case
  proof (cases "m = 0")
    case True
    then show ?thesis by simp
  next
    case False
    let ?f = "\<lambda>i (s, g). insertionLoop lessf i s g"
    obtain s1 g1 where p: "fold ?f [1..<m] (s, g) = (s1, g1)"
      by (cases "fold ?f [1..<m] (s, g)")
    have ih: "length s1 = length s" "mset s1 = mset s"
      "\<forall>a b. a < b \<and> b < m \<longrightarrow> le (s1 ! a) (s1 ! b)"
      using Suc.IH Suc.prems p by auto
    have step: "fold ?f [1..<Suc m] (s, g) = insertionLoop lessf m s1 g1"
      using False p by simp
    have ml: "m < length s1" using Suc.prems ih(1) by simp
    have o: "\<forall>a b. a < b \<and> b \<le> m \<longrightarrow>
        le (fst (insertionLoop lessf m s1 g1) ! a) (fst (insertionLoop lessf m s1 g1) ! b)"
      by (rule insertionLoop_ordered[where le = le, OF tr yes no ml]) (use ih(3) in auto)
    show ?thesis unfolding step
      using o ih(1,2) insertionLoop_length[of lessf m s1 g1] insertionLoop_mset[OF ml, of lessf g1]
      by (auto simp: less_Suc_eq_le)
  qed
qed

lemma insertionSort_sorted:
  assumes tr: "\<And>x y z. le x y \<Longrightarrow> le y z \<Longrightarrow> le x z"
    and yes: "\<And>s i j g. fst (lessf s i j g) \<Longrightarrow> le (s ! i) (s ! j)"
    and no: "\<And>s i j g. \<not> fst (lessf s i j g) \<Longrightarrow> le (s ! j) (s ! i)"
  shows "sorted_wrt le (fst (insertionSort lessf s g))"
    and "mset (fst (insertionSort lessf s g)) = mset s"
  using insertionSort_fold[where le = le and lessf = lessf and m = "length s" and s = s and g = g, OF tr yes no]
  unfolding insertionSort_def sorted_wrt_iff_nth_less by auto

lemma byPriority_Less_yes: "fst (byPriority_Less s i j g) \<Longrightarrow> priority_le (s ! i) (s ! j)"
  by (auto simp: byPriority_Less_def priority_le_def split: if_splits prod.splits)

lemma byPriority_Less_no: "\<not> fst (byPriority_Less s i j g) \<Longrightarrow> priority_le (s ! j) (s ! i)"
  by (auto simp: byPriority_Less_def priority_le_def split: if_splits prod.splits)

lemma byOrder_Less_yes: "fst (byOrder_Less s i j g) \<Longrightarrow> order_le (s ! i) (s ! j)"
  by (auto simp: byOrder_Less_def order_le_def split: if_splits)

lemma byOrder_Less_no: "\<not> fst (byOrder_Less s i j g) \<Longrightarrow> order_le (s ! j) (s ! i)"
  by (auto simp: byOrder_Less_def order_le_def split: if_splits)

lemma priority_le_trans: "priority_le x y \<Longrightarrow> priority_le y z \<Longrightarrow> priority_le x z"
  by (simp add: priority_le_def)

lemma order_le_trans: "order_le x y \<Longrightarrow> order_le y z \<Longrightarrow> order_le x z"
  by (auto simp: order_le_def)

lemma sort_byPriority:
  "sorted_wrt priority_le (fst (sort_Sort byPriority_Less s g))"
  "mset (fst (sort_Sort byPriority_Less s g)) = mset s"
  unfolding sort_Sort_def
  by (rule insertionSort_sorted[where le = priority_le, OF priority_le_trans byPriority_Less_yes byPriority_Less_no]; assumption)+

lemma sort_byOrder:
  "sorted_wrt order_le (fst (sort_Sort byOrder_Less s g))"
  "mset (fst (sort_Sort byOrder_Less s g)) = mset s"
  unfolding sort_Sort_def
  by (rule insertionSort_sorted[where le = order_le, OF order_le_trans byOrder_Less_yes byOrder_Less_no]; assumption)+

lemma sort_singleton: "sort_Sort lessf [x] g = ([x], g)"
  by (simp add: sort_Sort_def insertionSort_def)

section \<open>The calls of a resolution pass\<close>

lemma calls_at_append [simp]: "calls_at k (xs @ ys) = calls_at k xs @ calls_at k ys"
  by (induction k xs rule: calls_at.induct) auto

lemma tracedD:
  "traced rec \<Longrightarrow> rec k res q t st = Some st' \<Longrightarrow>
     \<exists>new. events st' = events st @ new \<and> calls_at k new = [(q, t)] \<and>
        (\<forall>j. j < k \<longrightarrow> calls_at j new = [])"
  unfolding traced_def by blast

lemma events_emit [simp]: "events (emit e st) = events st @ [e]"
  by (simp add: emit_def)

lemma scanAnswers_trace:
  assumes "traced rec"
  shows "scanAnswers rec C d res answers (srvs, naptrs, st) = Some (srvs', naptrs', st') \<Longrightarrow>
     srvs' = srvs @ srvAnswers answers \<and>
     naptrs' = naptrs @ filter (\<lambda>r. Service r = discoveryDDDSDNSName) (naptrAnswers answers) \<and>
     (\<exists>new. events st' = events st @ new \<and>
        calls_at (Suc d) new = map (\<lambda>p. (p, TypeSRV)) (ptrAnswers answers) \<and>
        (\<forall>j. j \<le> d \<longrightarrow> calls_at j new = []))"
proof (induction answers arbitrary: srvs naptrs st)
  case Nil
  then show ?case by simp
next
  case (Cons a as)
  show ?case
  proof (cases a)
    case (PTR_RR p)
    with Cons.prems obtain st1 where
      r: "rec (Suc d) res p TypeSRV st = Some st1" and
      k: "scanAnswers rec C d res as (srvs, naptrs, st1) = Some (srvs', naptrs', st')"
      by (auto split: option.splits)
    from tracedD[OF assms r] obtain n1 where
      n1: "events st1 = events st @ n1" "calls_at (Suc d) n1 = [(p, TypeSRV)]"
        "\<forall>j. j < Suc d \<longrightarrow> calls_at j n1 = []" by blast
    from Cons.IH[OF k] obtain n2 where
      n2: "srvs' = srvs @ srvAnswers as"
        "naptrs' = naptrs @ filter (\<lambda>r. Service r = discoveryDDDSDNSName) (naptrAnswers as)"
        "events st' = events st1 @ n2"
        "calls_at (Suc d) n2 = map (\<lambda>p. (p, TypeSRV)) (ptrAnswers as)"
        "\<forall>j. j \<le> d \<longrightarrow> calls_at j n2 = []" by blast
    have "events st' = events st @ (n1 @ n2)" using n1 n2 by simp
    moreover have "calls_at (Suc d) (n1 @ n2) = map (\<lambda>p. (p, TypeSRV)) (ptrAnswers (a # as))"
      using n1 n2 PTR_RR by simp
    moreover have "\<forall>j. j \<le> d \<longrightarrow> calls_at j (n1 @ n2) = []" using n1 n2 by simp
    ultimately show ?thesis using n2(1,2) PTR_RR by auto
  next
    case (NAPTR_RR r)
    with Cons.prems Cons.IH[of srvs "if Service r = discoveryDDDSDNSName then naptrs @ [r] else naptrs" st]
    show ?thesis by (auto split: if_splits)
  next
    case (SRV_RR r)
    let ?st1 = "if SRV.Port r \<noteq> DiscoveryPort C
              then emit (LogError ''DNS announced invalid discovery port'') st else st"
    from Cons.prems SRV_RR
    have k: "scanAnswers rec C d res as (srvs @ [r], naptrs, ?st1) = Some (srvs', naptrs', st')"
      by simp
    from Cons.IH[OF k] obtain n2 where
      n2: "srvs' = (srvs @ [r]) @ srvAnswers as"
        "naptrs' = naptrs @ filter (\<lambda>r. Service r = discoveryDDDSDNSName) (naptrAnswers as)"
        "events st' = events ?st1 @ n2"
        "calls_at (Suc d) n2 = map (\<lambda>p. (p, TypeSRV)) (ptrAnswers as)"
        "\<forall>j. j \<le> d \<longrightarrow> calls_at j n2 = []" by blast
    obtain n1 where n1: "events ?st1 = events st @ n1" "\<forall>j. calls_at j n1 = []"
      by (cases "SRV.Port r \<noteq> DiscoveryPort C") auto
    have "events st' = events st @ (n1 @ n2)" using n1 n2 by simp
    moreover have "calls_at (Suc d) (n1 @ n2) = map (\<lambda>p. (p, TypeSRV)) (ptrAnswers (a # as))"
      using n1 n2 SRV_RR by simp
    moreover have "\<forall>j. j \<le> d \<longrightarrow> calls_at j (n1 @ n2) = []" using n1 n2 by simp
    ultimately show ?thesis using n2(1,2) SRV_RR by auto
  next
    case (A_RR ip)
    from Cons.prems A_RR
    have k: "scanAnswers rec C d res as (srvs, naptrs, emit (Hint ip) st) = Some (srvs', naptrs', st')"
      by simp
    from Cons.IH[OF k] A_RR show ?thesis by auto
  next
    case (AAAA_RR ip)
    from Cons.prems AAAA_RR
    have k: "scanAnswers rec C d res as (srvs, naptrs, emit (Hint ip) st) = Some (srvs', naptrs', st')"
      by simp
    from Cons.IH[OF k] AAAA_RR show ?thesis by auto
  next
    case Other_RR
    with Cons.prems Cons.IH[of srvs naptrs st] show ?thesis by auto
  qed
qed

lemma chaseSRV_trace:
  assumes "traced rec"
  shows "chaseSRV rec d res srvs st = Some st' \<Longrightarrow>
     \<exists>new. events st' = events st @ new \<and>
        calls_at (Suc d) new = concat (map srvQueries srvs) \<and>
        (\<forall>j. j \<le> d \<longrightarrow> calls_at j new = [])"
proof (induction srvs arbitrary: st)
  case Nil
  then show ?case by simp
next
  case (Cons a as)
  from Cons.prems obtain st1 st2 where
    r1: "rec (Suc d) res (Target a) TypeAAAA st = Some st1" and
    r2: "rec (Suc d) res (Target a) TypeA st1 = Some st2" and
    k: "chaseSRV rec d res as st2 = Some st'"
    by (auto split: option.splits)
  from tracedD[OF assms r1] obtain n1 where
    n1: "events st1 = events st @ n1" "calls_at (Suc d) n1 = [(Target a, TypeAAAA)]"
      "\<forall>j. j < Suc d \<longrightarrow> calls_at j n1 = []" by blast
  from tracedD[OF assms r2] obtain n2 where
    n2: "events st2 = events st1 @ n2" "calls_at (Suc d) n2 = [(Target a, TypeA)]"
      "\<forall>j. j < Suc d \<longrightarrow> calls_at j n2 = []" by blast
  from Cons.IH[OF k] obtain n3 where
    n3: "events st' = events st2 @ n3" "calls_at (Suc d) n3 = concat (map srvQueries as)"
      "\<forall>j. j \<le> d \<longrightarrow> calls_at j n3 = []" by blast
  have "events st' = events st @ (n1 @ n2 @ n3)" using n1 n2 n3 by simp
  moreover have "calls_at (Suc d) (n1 @ n2 @ n3) = concat (map srvQueries (a # as))"
    using n1 n2 n3 by (simp add: srvQueries_def)
  moreover have "\<forall>j. j \<le> d \<longrightarrow> calls_at j (n1 @ n2 @ n3) = []" using n1 n2 n3 by simp
  ultimately show ?case by blast
qed



lemma naptrDispatch_trace:
  assumes "traced rec" and "naptrDispatch rec d res r st = Some st'"
  shows "\<exists>new. events st' = events st @ new \<and>
        calls_at (Suc d) new = naptrQueries r \<and>
        (\<forall>j. j \<le> d \<longrightarrow> calls_at j new = [])"
proof -
  consider (N) "Flags r = ''''" | (A) "Flags r = ''A''" | (S) "Flags r = ''S''"
    | (other) "Flags r \<noteq> ''''" "Flags r \<noteq> ''A''" "Flags r \<noteq> ''S''" by blast
  then show ?thesis
  proof cases
    case N
    with assms(2) have "rec (Suc d) res (Replacement r) TypeNAPTR st = Some st'"
      by (simp add: naptrDispatch_def)
    from tracedD[OF assms(1) this] N show ?thesis
      by (auto simp: naptrQueries_def less_Suc_eq_le)
  next
    case A
    with assms(2) obtain st1 where
      r1: "rec (Suc d) res (Replacement r) TypeAAAA st = Some st1" and
      r2: "rec (Suc d) res (Replacement r) TypeA st1 = Some st'"
      by (auto simp: naptrDispatch_def split: option.splits)
    from tracedD[OF assms(1) r1] obtain n1 where
      n1: "events st1 = events st @ n1" "calls_at (Suc d) n1 = [(Replacement r, TypeAAAA)]"
        "\<forall>j. j < Suc d \<longrightarrow> calls_at j n1 = []" by blast
    from tracedD[OF assms(1) r2] obtain n2 where
      n2: "events st' = events st1 @ n2" "calls_at (Suc d) n2 = [(Replacement r, TypeA)]"
        "\<forall>j. j < Suc d \<longrightarrow> calls_at j n2 = []" by blast
    have "events st' = events st @ (n1 @ n2)" using n1 n2 by simp
    moreover have "calls_at (Suc d) (n1 @ n2) = naptrQueries r"
      using n1 n2 A by (simp add: naptrQueries_def)
    moreover have "\<forall>j. j \<le> d \<longrightarrow> calls_at j (n1 @ n2) = []" using n1 n2 by simp
    ultimately show ?thesis by blast
  next
    case S
    with assms(2) have "rec (Suc d) res (Replacement r) TypeSRV st = Some st'"
      by (simp add: naptrDispatch_def)
    from tracedD[OF assms(1) this] S show ?thesis
      by (auto simp: naptrQueries_def less_Suc_eq_le)
  next
    case other
    with assms(2) have "st' = st" by (simp add: naptrDispatch_def)
    with other show ?thesis by (simp add: naptrQueries_def)
  qed
qed

lemma chaseNAPTR_trace:
  assumes "traced rec"
  shows "chaseNAPTR rec d res rs st = Some st' \<Longrightarrow>
     \<exists>new. events st' = events st @ new \<and>
        calls_at (Suc d) new = concat (map naptrQueries rs) \<and>
        (\<forall>j. j \<le> d \<longrightarrow> calls_at j new = [])"
proof (induction rs arbitrary: st)
  case Nil
  then show ?case by simp
next
  case (Cons a as)
  from Cons.prems obtain st1 where
    r1: "naptrDispatch rec d res a st = Some st1" and
    k: "chaseNAPTR rec d res as st1 = Some st'"
    by (auto split: option.splits)
  from naptrDispatch_trace[OF assms r1] obtain n1 where
    n1: "events st1 = events st @ n1" "calls_at (Suc d) n1 = naptrQueries a"
      "\<forall>j. j \<le> d \<longrightarrow> calls_at j n1 = []" by blast
  from Cons.IH[OF k] obtain n3 where
    n3: "events st' = events st1 @ n3" "calls_at (Suc d) n3 = concat (map naptrQueries as)"
      "\<forall>j. j \<le> d \<longrightarrow> calls_at j n3 = []" by blast
  have "events st' = events st @ (n1 @ n3)" using n1 n3 by simp
  moreover have "calls_at (Suc d) (n1 @ n3) = concat (map naptrQueries (a # as))"
    using n1 n3 by simp
  moreover have "\<forall>j. j \<le> d \<longrightarrow> calls_at j (n1 @ n3) = []" using n1 n3 by simp
  ultimately show ?case by blast
qed

lemma chaseServiceRecords_trace:
  assumes "traced rec" and "chaseServiceRecords rec d res batch st = Some st'"
  shows "\<exists>sorted new. mset sorted = mset batch \<and> sorted_wrt priority_le sorted \<and>
        events st' = events st @ new \<and>
        calls_at (Suc d) new = concat (map srvQueries sorted) \<and>
        (\<forall>j. j \<le> d \<longrightarrow> calls_at j new = [])"
proof (cases "batch = []")
  case True
  with assms(2) have "st' = st" by (simp add: chaseServiceRecords_def)
  with True show ?thesis by auto
next
  case False
  obtain sorted g' where sg: "sort_Sort byPriority_Less batch (rng st) = (sorted, g')"
    by (cases "sort_Sort byPriority_Less batch (rng st)")
  with False assms(2) have k: "chaseSRV rec d res sorted (st\<lparr>rng := g'\<rparr>) = Some st'"
    by (simp add: chaseServiceRecords_def)
  have s: "sorted_wrt priority_le sorted" "mset sorted = mset batch"
    using sort_byPriority[of batch "rng st"] sg by simp_all
  from chaseSRV_trace[OF assms(1) k] s show ?thesis by auto
qed

lemma chaseNaptrRecords_trace:
  assumes "traced rec" and "chaseNaptrRecords rec d res batch st = Some st'"
  shows "\<exists>sorted new. mset sorted = mset batch \<and> sorted_wrt order_le sorted \<and>
        events st' = events st @ new \<and>
        calls_at (Suc d) new = concat (map naptrQueries sorted) \<and>
        (\<forall>j. j \<le> d \<longrightarrow> calls_at j new = [])"
proof (cases "batch = []")
  case True
  with assms(2) have "st' = st" by (simp add: chaseNaptrRecords_def)
  with True show ?thesis by auto
next
  case False
  obtain sorted g' where sg: "sort_Sort byOrder_Less batch (rng st) = (sorted, g')"
    by (cases "sort_Sort byOrder_Less batch (rng st)")
  with False assms(2) have k: "chaseNAPTR rec d res sorted (st\<lparr>rng := g'\<rparr>) = Some st'"
    by (simp add: chaseNaptrRecords_def)
  have s: "sorted_wrt order_le sorted" "mset sorted = mset batch"
    using sort_byOrder[of batch "rng st"] sg by simp_all
  from chaseNAPTR_trace[OF assms(1) k] s show ?thesis by auto
qed

text \<open>
  The whole of one call that received answers: the direct calls are the SRV lookups of the
  PTR answers, then the chase of the sorted SRV batch, then the chase of the sorted NAPTR
  batch.
\<close>

lemma resolveDNS_body_pass:
  assumes tr: "traced rec"
    and run: "resolveDNS_body rec E C d res q t st = Some st'"
    and ans: "E (tick st) (res @ '':53'') q t = Inr answers"
  shows "\<exists>ssorted nsorted new.
      mset ssorted = mset (srvAnswers answers) \<and> sorted_wrt priority_le ssorted \<and>
      mset nsorted = mset (filter (\<lambda>r. Service r = discoveryDDDSDNSName) (naptrAnswers answers)) \<and>
      sorted_wrt order_le nsorted \<and>
      events st' = events st @ Exchange d q t # new \<and>
      calls_at (Suc d) new =
        map (\<lambda>p. (p, TypeSRV)) (ptrAnswers answers) @ concat (map srvQueries ssorted) @
        concat (map naptrQueries nsorted) \<and>
      (\<forall>j. j \<le> d \<longrightarrow> calls_at j new = [])"
proof -
  let ?st0 = "emit (Exchange d q t) (st\<lparr>tick := Suc (tick st)\<rparr>)"
  from run ans obtain srvs naptrs st1 st2 where
    sc: "scanAnswers rec C d res answers ([], [], ?st0) = Some (srvs, naptrs, st1)" and
    cs: "chaseServiceRecords rec d res srvs st1 = Some st2" and
    cn: "chaseNaptrRecords rec d res naptrs st2 = Some st'"
    by (auto simp: resolveDNS_body_def Let_def split: option.splits)
  from scanAnswers_trace[OF tr sc] obtain n1 where
    n1: "srvs = srvAnswers answers"
      "naptrs = filter (\<lambda>r. Service r = discoveryDDDSDNSName) (naptrAnswers answers)"
      "events st1 = events ?st0 @ n1"
      "calls_at (Suc d) n1 = map (\<lambda>p. (p, TypeSRV)) (ptrAnswers answers)"
      "\<forall>j. j \<le> d \<longrightarrow> calls_at j n1 = []" by auto
  from chaseServiceRecords_trace[OF tr cs] obtain ssorted n2 where
    n2: "mset ssorted = mset srvs" "sorted_wrt priority_le ssorted"
      "events st2 = events st1 @ n2"
      "calls_at (Suc d) n2 = concat (map srvQueries ssorted)"
      "\<forall>j. j \<le> d \<longrightarrow> calls_at j n2 = []" by blast
  from chaseNaptrRecords_trace[OF tr cn] obtain nsorted n3 where
    n3: "mset nsorted = mset naptrs" "sorted_wrt order_le nsorted"
      "events st' = events st2 @ n3"
      "calls_at (Suc d) n3 = concat (map naptrQueries nsorted)"
      "\<forall>j. j \<le> d \<longrightarrow> calls_at j n3 = []" by blast
  have e: "events st' = events st @ Exchange d q t # (n1 @ n2 @ n3)"
    using n1(3) n2(3) n3(3) by simp
  have c: "calls_at (Suc d) (n1 @ n2 @ n3) =
        map (\<lambda>p. (p, TypeSRV)) (ptrAnswers answers) @ concat (map srvQueries ssorted) @
        concat (map naptrQueries nsorted)"
    using n1(4) n2(4) n3(4) by simp
  have z: "\<forall>j. j \<le> d \<longrightarrow> calls_at j (n1 @ n2 @ n3) = []"
    using n1(5) n2(5) n3(5) by simp
  show ?thesis
    using n1(1,2) n2(1,2) n3(1,2) e c z by blast
qed

lemma resolveDNS_body_traced:
  assumes tr: "traced rec"
  shows "traced (resolveDNS_body rec E C)"
  unfolding traced_def
proof (intro allI impI)
  fix k res q t st st'
  assume run: "resolveDNS_body rec E C k res q t st = Some st'"
  show "\<exists>new. events st' = events st @ new \<and> calls_at k new = [(q, t)] \<and>
          (\<forall>j. j < k \<longrightarrow> calls_at j new = [])"
  proof (cases "E (tick st) (res @ '':53'') q t")
    case (Inl err)
    with run have "events st' = events st @ [Exchange k q t, LogError ''DNS-SD failed'']"
      by (auto simp: resolveDNS_body_def Let_def)
    then show ?thesis by auto
  next
    case (Inr answers)
    from resolveDNS_body_pass[OF tr run Inr] obtain new where
      n: "events st' = events st @ Exchange k q t # new"
        "\<forall>j. j \<le> k \<longrightarrow> calls_at j new = []" by blast
    have "calls_at k (Exchange k q t # new) = [(q, t)]" using n(2) by simp
    moreover have "\<forall>j. j < k \<longrightarrow> calls_at j (Exchange k q t # new) = []" using n(2) by simp
    ultimately show ?thesis using n(1) by blast
  qed
qed

lemma resolveDNS_traced: "traced (resolveDNS n E C)"
proof (induction n)
  case 0
  show ?case by (simp add: traced_def)
next
  case (Suc n)
  then show ?case by (simp add: resolveDNS_body_traced)
qed

lemma resolveDNS_pass:
  assumes run: "resolveDNS (Suc n) E C d res q t st = Some st'"
    and ans: "E (tick st) (res @ '':53'') q t = Inr answers"
  shows "\<exists>ssorted nsorted new.
      mset ssorted = mset (srvAnswers answers) \<and> sorted_wrt priority_le ssorted \<and>
      mset nsorted = mset (filter (\<lambda>r. Service r = discoveryDDDSDNSName) (naptrAnswers answers)) \<and>
      sorted_wrt order_le nsorted \<and>
      events st' = events st @ Exchange d q t # new \<and>
      calls_at (Suc d) new =
        map (\<lambda>p. (p, TypeSRV)) (ptrAnswers answers) @ concat (map srvQueries ssorted) @
        concat (map naptrQueries nsorted) \<and>
      (\<forall>j. j \<le> d \<longrightarrow> calls_at j new = [])"
proof -
  have "resolveDNS_body (resolveDNS n E C) E C d res q t st = Some st'" using run by simp
  from resolveDNS_body_pass[where rec = "resolveDNS n E C", OF resolveDNS_traced this ans]
  show ?thesis .
qed

text \<open>
  A call returns as soon as the calls it makes return: the loops themselves are bounded by
  the answers of one response.
\<close>

lemma scanAnswers_returns:
  assumes "\<And>k res q t s. rec k res q t s \<noteq> None"
  shows "scanAnswers rec C d resolver answers (srvs, naptrs, st) \<noteq> None"
proof (induction answers arbitrary: srvs naptrs st)
  case Nil
  show ?case by simp
next
  case (Cons a as)
  show ?case
  proof (cases a)
    case (PTR_RR p)
    obtain s1 where "rec (Suc d) resolver p TypeSRV st = Some s1"
      using assms[of "Suc d" resolver p TypeSRV st] by auto
    with PTR_RR Cons.IH show ?thesis by simp
  qed (simp_all add: Cons.IH)
qed

lemma chaseSRV_returns:
  assumes "\<And>k res q t s. rec k res q t s \<noteq> None"
  shows "chaseSRV rec d resolver srvs st \<noteq> None"
proof (induction srvs arbitrary: st)
  case Nil
  show ?case by simp
next
  case (Cons a as)
  obtain s1 where r1: "rec (Suc d) resolver (Target a) TypeAAAA st = Some s1"
    using assms[of "Suc d" resolver "Target a" TypeAAAA st] by auto
  obtain s2 where r2: "rec (Suc d) resolver (Target a) TypeA s1 = Some s2"
    using assms[of "Suc d" resolver "Target a" TypeA s1] by auto
  from r1 r2 Cons.IH show ?case by simp
qed

lemma naptrDispatch_returns:
  assumes "\<And>k res q t s. rec k res q t s \<noteq> None"
  shows "naptrDispatch rec d resolver r st \<noteq> None"
proof -
  obtain s1 where r1: "rec (Suc d) resolver (Replacement r) TypeAAAA st = Some s1"
    using assms[of "Suc d" resolver "Replacement r" TypeAAAA st] by auto
  then show ?thesis using assms by (simp add: naptrDispatch_def)
qed

lemma chaseNAPTR_returns:
  assumes "\<And>k res q t s. rec k res q t s \<noteq> None"
  shows "chaseNAPTR rec d resolver rs st \<noteq> None"
proof (induction rs arbitrary: st)
  case Nil
  show ?case by simp
next
  case (Cons a as)
  have "naptrDispatch rec d resolver a st \<noteq> None"
    by (rule naptrDispatch_returns) (rule assms)
  then obtain s1 where "naptrDispatch rec d resolver a st = Some s1" by auto
  with Cons.IH show ?case by simp
qed

lemma resolveDNS_returns:
  assumes "\<And>k res q t s. resolveDNS n E C k res q t s \<noteq> None"
  shows "resolveDNS (Suc n) E C d resolver query dnsRR st \<noteq> None"
proof (cases "E (tick st) (resolver @ '':53'') query dnsRR")
  case (Inl err)
  then show ?thesis by (simp add: resolveDNS_body_def Let_def)
next
  case (Inr answers)
  let ?rec = "resolveDNS n E C"
  let ?st0 = "emit (Exchange d query dnsRR) (st\<lparr>tick := Suc (tick st)\<rparr>)"
  have "scanAnswers ?rec C d resolver answers ([], [], ?st0) \<noteq> None"
    by (rule scanAnswers_returns) (rule assms)
  then obtain srvs naptrs st1 where
    sc: "scanAnswers ?rec C d resolver answers ([], [], ?st0) = Some (srvs, naptrs, st1)"
    by auto
  have cs0: "\<And>xs s. chaseSRV ?rec d resolver xs s \<noteq> None"
    by (rule chaseSRV_returns) (rule assms)
  have "chaseServiceRecords ?rec d resolver srvs st1 \<noteq> None"
    using cs0 by (simp add: chaseServiceRecords_def split: prod.splits)
  then obtain st2 where cs: "chaseServiceRecords ?rec d resolver srvs st1 = Some st2" by auto
  have cn0: "\<And>xs s. chaseNAPTR ?rec d resolver xs s \<noteq> None"
    by (rule chaseNAPTR_returns) (rule assms)
  have "chaseNaptrRecords ?rec d resolver naptrs st2 \<noteq> None"
    using cn0 by (simp add: chaseNaptrRecords_def split: prod.splits)
  with Inr sc cs show ?thesis by (simp add: resolveDNS_body_def Let_def)
qed

section \<open>Runs on the concrete inputs\<close>

lemmas ev = resolveDNS_body_def E0_def st0_def emit_def srvA_def srvB_def naptrU_def naptrA_def naptrX_def
     discoveryDDDSDNSName_def C0_def chaseServiceRecords_def chaseNaptrRecords_def sort_Sort_def insertionSort_def byPriority_Less_def byOrder_Less_def Swap_def naptrDispatch_def Intn_def draws_def

lemma run_E0:
  "map_option events (resolveDNS (Suc (Suc 0)) E0 C0 0 ''r'' ''d'' TypeSRV st0) =
   Some [Exchange 0 ''d'' TypeSRV, Exchange 1 ''a'' TypeAAAA, Exchange 1 ''a'' TypeA, Hint ''10.0.0.5'',
     Exchange 1 ''b'' TypeAAAA, LogError ''DNS-SD failed'', Exchange 1 ''b'' TypeA,
     LogError ''DNS-SD failed'', Exchange 1 ''a'' TypeAAAA, Exchange 1 ''a'' TypeA, Hint ''10.0.0.5'']"
  by (simp add: ev)

lemma ans_E0:
  "E0 (tick st0) (''r'' @ '':53'') ''d'' TypeSRV =
     Inr [SRV_RR srvB, NAPTR_RR naptrU, SRV_RR srvA, NAPTR_RR naptrX, NAPTR_RR naptrA]"
  by (simp add: E0_def)

lemma run_dispatch:
  "map_option events (naptrDispatch (resolveDNS (Suc 0) E0 C0) 0 ''r'' naptrN st0) =
     Some [Exchange 1 ''n'' TypeNAPTR]"
  "map_option events (naptrDispatch (resolveDNS (Suc 0) E0 C0) 0 ''r'' naptrA st0) =
     Some [Exchange 1 ''a'' TypeAAAA, Exchange 1 ''a'' TypeA, Hint ''10.0.0.5'']"
  "map_option events (naptrDispatch (resolveDNS (Suc 0) E0 C0) 0 ''r'' naptrV st0) =
     Some [Exchange 1 ''v'' TypeSRV]"
  by (simp_all add: ev naptrN_def naptrV_def)




lemma resolveDNS_body_loopEnv:
  "resolveDNS_body rec loopEnv C d res q t st =
     rec (Suc d) res q TypeNAPTR (emit (Exchange d q t) (st\<lparr>tick := Suc (tick st)\<rparr>))"
  by (simp add: resolveDNS_body_def loopEnv_def chaseServiceRecords_def chaseNaptrRecords_def
        sort_singleton naptrDispatch_def split: option.splits)

lemma resolveDNS_loopEnv: "resolveDNS n loopEnv C d res q t st = None"
proof (induction n arbitrary: d q t st)
  case 0
  show ?case by simp
next
  case (Suc n)
  show ?case by (simp only: resolveDNS.simps resolveDNS_body_loopEnv Suc.IH)
qed

lemma resolveDNS_body_growEnv_stop:
  "\<not> length q < m \<Longrightarrow> resolveDNS_body rec (growEnv m) C d res q t st =
     Some (emit (Exchange d q t) (st\<lparr>tick := Suc (tick st)\<rparr>))"
  by (simp add: resolveDNS_body_def growEnv_def chaseServiceRecords_def chaseNaptrRecords_def)

lemma resolveDNS_body_growEnv_step:
  "length q < m \<Longrightarrow> resolveDNS_body rec (growEnv m) C d res q t st =
     rec (Suc d) res (CHR ''x'' # q) TypeNAPTR
       (emit (Exchange d q t) (st\<lparr>tick := Suc (tick st)\<rparr>))"
  by (simp add: resolveDNS_body_def growEnv_def chaseServiceRecords_def chaseNaptrRecords_def
        sort_singleton naptrDispatch_def split: option.splits)

lemma resolveDNS_growEnv:
  "length q + k = m \<Longrightarrow>
     \<exists>st'. resolveDNS (Suc k) (growEnv m) C d res q t st = Some st' \<and>
       Exchange (d + k) (replicate k CHR ''x'' @ q) (if k = 0 then t else TypeNAPTR)
         \<in> set (events st')"
proof (induction k arbitrary: q d t st)
  case 0
  then show ?case by (simp add: resolveDNS_body_growEnv_stop)
next
  case (Suc k)
  let ?st0 = "emit (Exchange d q t) (st\<lparr>tick := Suc (tick st)\<rparr>)"
  have l: "length q < m" using Suc.prems by simp
  have "length (CHR ''x'' # q) + k = m" using Suc.prems by simp
  from Suc.IH[OF this, of "Suc d" TypeNAPTR ?st0] obtain st' where
    r: "resolveDNS (Suc k) (growEnv m) C (Suc d) res (CHR ''x'' # q) TypeNAPTR ?st0 = Some st'" and
    e: "Exchange (Suc d + k) (replicate k CHR ''x'' @ CHR ''x'' # q)
          (if k = 0 then TypeNAPTR else TypeNAPTR) \<in> set (events st')"
    by blast
  have "resolveDNS (Suc (Suc k)) (growEnv m) C d res q t st =
        resolveDNS (Suc k) (growEnv m) C (Suc d) res (CHR ''x'' # q) TypeNAPTR ?st0"
    using l by (simp add: resolveDNS_body_growEnv_step)
  with r have run: "resolveDNS (Suc (Suc k)) (growEnv m) C d res q t st = Some st'" by simp
  have eq: "replicate k CHR ''x'' @ CHR ''x'' # q = CHR ''x'' # replicate k CHR ''x'' @ q"
    by (rule replicate_app_Cons_same)
  from e have "Exchange (Suc (d + k)) (CHR ''x'' # replicate k CHR ''x'' @ q) TypeNAPTR
      \<in> set (events st')"
    unfolding eq by simp
  with run show ?case by (intro exI[of _ st']) simp
qed





lemmas show8041 = showNat.simps[of 8041] showNat.simps[of 804] showNat.simps[of 80] showNat.simps[of 8]

lemma topologyURL0:
  "buildTopologyURL ''10.0.0.5'' 8041 = ''http://10.0.0.5:8041/scion/discovery/v1/topology.json''"
  by (simp add: buildTopologyURL_def showInt_def show8041 digit_def baseURL_def topologyEndpoint_def)

lemma trcsURL0:
  "buildTRCsURL ''10.0.0.5'' 8041 = ''http://10.0.0.5:8041/scion/discovery/v1/trcs.tar''"
  by (simp add: buildTRCsURL_def showInt_def show8041 digit_def baseURL_def TRCsEndpoint_def)

lemmas main_ev = tryBootstrapping_def pullTopology_def pullTRCs_def fetchHTTP_def writeTarEntry_def
  logError_def Base_def Join_def Clean_def TypeReg_def TypeDir_def StatusOK_def
  TopologyJSONFileName_def C0_def w0_def addr0_def topologyURL0 trcsURL0

lemma run_M3:
  "fst (tryBootstrapping M3 C0 (Received addr0) w0) = None \<and>
   requests (snd (tryBootstrapping M3 C0 (Received addr0) w0)) =
     [''http://10.0.0.5:8041/scion/discovery/v1/topology.json'',
      ''http://10.0.0.5:8041/scion/discovery/v1/trcs.tar''] \<and>
   logged (snd (tryBootstrapping M3 C0 (Received addr0) w0)) = [(''Invalid TRC file name'', '''')] \<and>
   files (snd (tryBootstrapping M3 C0 (Received addr0) w0)) =
     [''/etc/scion/topology.json'' \<mapsto> ''{}'', ''/etc/scion/certs/trc1.crt'' \<mapsto> ''DATA'']"
  by (simp add: main_ev M3_def archive2_def)

lemmas show8042 = showNat.simps[of 8042] showNat.simps[of 804] showNat.simps[of 80] showNat.simps[of 8]

lemma topologyURL2:
  "buildTopologyURL ''10.0.0.5'' 8042 = ''http://10.0.0.5:8042/scion/discovery/v1/topology.json''"
  by (simp add: buildTopologyURL_def showInt_def show8042 digit_def baseURL_def topologyEndpoint_def)

lemma run_M3_port:
  "fst (tryBootstrapping M3 C0 (Received addr2) w0) = Some ''HTTP request failed'' \<and>
   requests (snd (tryBootstrapping M3 C0 (Received addr2) w0)) =
     [''http://10.0.0.5:8042/scion/discovery/v1/topology.json'']"
  by (simp add: tryBootstrapping_def pullTopology_def fetchHTTP_def logError_def C0_def w0_def
      addr2_def topologyURL2 M3_def Let_def)

section \<open>Properties of the resolution engine\<close>

text \<open>
  One comparison inside a tier: the bound handed to \<^verbatim>\<open>rand.Intn\<close> is positive, and of the
  equally likely draws below it, as many order \<open>i\<close> before \<open>j\<close> as the weight of \<open>i\<close>
  (one of two when both weights are zero).
\<close>

lemma byPriority_Intn_bound:
  "\<not> (Weight a = 0 \<and> Weight b = 0) \<Longrightarrow> 0 < unat (Weight a) + unat (Weight b)"
  by (metis add_gr_0 unat_gt_0)

lemma byPriority_Less_pairwise:
  assumes "Priority (s ! i) = Priority (s ! j)"
    and "\<not> (Weight (s ! i) = 0 \<and> Weight (s ! j) = 0)"
  shows "card {r. r < unat (Weight (s ! i)) + unat (Weight (s ! j)) \<and>
                  fst (byPriority_Less s i j (draws [r]))} = unat (Weight (s ! i))"
proof -
  let ?wi = "unat (Weight (s ! i))" and ?wj = "unat (Weight (s ! j))"
  have "{r. r < ?wi + ?wj \<and> fst (byPriority_Less s i j (draws [r]))} = {r. r < ?wi}"
    using assms by (auto simp: byPriority_Less_def Intn_def draws_def split: prod.splits)
  then show ?thesis by simp
qed

lemma byPriority_Less_pairwise_zero:
  assumes "Priority (s ! i) = Priority (s ! j)"
    and "Weight (s ! i) = 0" and "Weight (s ! j) = 0"
  shows "card {r. r < 2 \<and> fst (byPriority_Less s i j (draws [r]))} = 1"
proof -
  have "{r. r < 2 \<and> fst (byPriority_Less s i j (draws [r]))} = {0}"
    using assms by (auto simp: byPriority_Less_def Intn_def draws_def split: prod.splits)
  then show ?thesis by simp
qed

text \<open>
  C1 (weighted-random selection within a priority tier). On the tier \<open>tie3\<close> of three
  records with weight zero every comparison is a fair coin, and the sort starts the chase
  with \<open>a\<close> in three of the eight equally likely outcomes, with \<open>b\<close> in three and with
  \<open>c\<close> in two: the members are not selected with equal probability. The tier \<open>tie3w\<close>
  of three records with weight one gives the same counts, which are not proportional to
  the weights. Between two records the comparator does follow the weights
  (\<open>byPriority_Less_pairwise\<close>, \<open>byPriority_Less_pairwise_zero\<close>).
\<close>

theorem byPriority_three_way_tie_not_uniform:
  "length coin_flips3 = 8 \<and>
   map (\<lambda>t. length (filter (\<lambda>ds. chased_first tie3 ds = [t]) coin_flips3)) [''a'', ''b'', ''c'']
     = [3, 3, 2] \<and>
   map (\<lambda>t. length (filter (\<lambda>ds. chased_first tie3w ds = [t]) coin_flips3)) [''a'', ''b'', ''c'']
     = [3, 3, 2]"
  by (simp add: chased_first_def tie3_def tie3w_def coin_flips3_def sort_Sort_def insertionSort_def
      byPriority_Less_def Swap_def Intn_def draws_def)




text \<open>
  C3 (NAPTR answers are filtered by service tag and processed by order, then preference).
  When a call of \<^verbatim>\<open>resolveDNS\<close> that received \<open>answers\<close> returns, the NAPTR records it
  chased are a permutation \<open>sorted\<close> of exactly the NAPTR answers whose service equals
  \<^verbatim>\<open>x-sciondiscovery:tcp\<close>, non-decreasing in (order, preference), and they are chased in
  that sequence.
\<close>

theorem naptr_batch_filtered_and_ordered:
  assumes "resolveDNS (Suc n) E C d resolver query dnsRR st = Some st'"
    and "E (tick st) (resolver @ '':53'') query dnsRR = Inr answers"
  shows "\<exists>sorted ssorted new.
      mset sorted = mset (filter (\<lambda>r. Service r = discoveryDDDSDNSName) (naptrAnswers answers)) \<and>
      sorted_wrt order_le sorted \<and>
      events st' = events st @ Exchange d query dnsRR # new \<and>
      calls_at (Suc d) new =
        map (\<lambda>p. (p, TypeSRV)) (ptrAnswers answers) @ concat (map srvQueries ssorted) @
        concat (map naptrQueries sorted)"
proof -
  from resolveDNS_pass[OF assms] obtain ssorted nsorted new where
    "mset nsorted = mset (filter (\<lambda>r. Service r = discoveryDDDSDNSName) (naptrAnswers answers))"
    "sorted_wrt order_le nsorted"
    "events st' = events st @ Exchange d query dnsRR # new"
    "calls_at (Suc d) new =
        map (\<lambda>p. (p, TypeSRV)) (ptrAnswers answers) @ concat (map srvQueries ssorted) @
        concat (map naptrQueries nsorted)"
    by blast
  then show ?thesis by blast
qed

theorem naptr_batch_filtered_and_ordered_witness:
  "\<exists>st'. resolveDNS (Suc (Suc 0)) E0 C0 0 ''r'' ''d'' TypeSRV st0 = Some st' \<and>
     E0 (tick st0) (''r'' @ '':53'') ''d'' TypeSRV =
       Inr [SRV_RR srvB, NAPTR_RR naptrU, SRV_RR srvA, NAPTR_RR naptrX, NAPTR_RR naptrA] \<and>
     (\<exists>sorted ssorted new.
        mset sorted = {#naptrU, naptrA#} \<and> sorted_wrt order_le sorted \<and>
        events st' = events st0 @ Exchange 0 ''d'' TypeSRV # new \<and>
        calls_at (Suc 0) new =
          concat (map srvQueries ssorted) @ concat (map naptrQueries sorted))"
proof -
  from run_E0 obtain st' where
    run: "resolveDNS (Suc (Suc 0)) E0 C0 0 ''r'' ''d'' TypeSRV st0 = Some st'" by auto
  have f: "filter (\<lambda>r. Service r = discoveryDDDSDNSName) [naptrU, naptrX, naptrA] = [naptrU, naptrA]"
    by (simp add: naptrU_def naptrX_def naptrA_def discoveryDDDSDNSName_def)
  from naptr_batch_filtered_and_ordered[OF run ans_E0] run ans_E0 f
  show ?thesis by simp
qed

text \<open>
  C4 (dispatch on the flags of a chased NAPTR record). When the switch on a record returns,
  the direct calls it made are: one NAPTR query on the replacement for empty flags; an AAAA
  query then an A query on the replacement for flags \<^verbatim>\<open>"A"\<close>; one SRV query on the
  replacement for flags \<^verbatim>\<open>"S"\<close>.
\<close>

theorem naptr_flags_dispatch:
  assumes "naptrDispatch (resolveDNS n E C) d resolver r st = Some st'"
  shows "\<exists>new. events st' = events st @ new \<and>
      (\<forall>j. j \<le> d \<longrightarrow> calls_at j new = []) \<and>
      (Flags r = '''' \<longrightarrow> calls_at (Suc d) new = [(Replacement r, TypeNAPTR)]) \<and>
      (Flags r = ''A'' \<longrightarrow>
         calls_at (Suc d) new = [(Replacement r, TypeAAAA), (Replacement r, TypeA)]) \<and>
      (Flags r = ''S'' \<longrightarrow> calls_at (Suc d) new = [(Replacement r, TypeSRV)])"
proof -
  from naptrDispatch_trace[OF resolveDNS_traced assms] obtain new where
    "events st' = events st @ new" "calls_at (Suc d) new = naptrQueries r"
    "\<forall>j. j \<le> d \<longrightarrow> calls_at j new = []" by blast
  then show ?thesis by (auto simp: naptrQueries_def)
qed

theorem naptr_flags_dispatch_witness:
  "(\<exists>st'. naptrDispatch (resolveDNS (Suc 0) E0 C0) 0 ''r'' naptrN st0 = Some st' \<and>
      (\<exists>new. events st' = events st0 @ new \<and> calls_at (Suc 0) new = [(''n'', TypeNAPTR)])) \<and>
   (\<exists>st'. naptrDispatch (resolveDNS (Suc 0) E0 C0) 0 ''r'' naptrA st0 = Some st' \<and>
      (\<exists>new. events st' = events st0 @ new \<and>
         calls_at (Suc 0) new = [(''a'', TypeAAAA), (''a'', TypeA)])) \<and>
   (\<exists>st'. naptrDispatch (resolveDNS (Suc 0) E0 C0) 0 ''r'' naptrV st0 = Some st' \<and>
      (\<exists>new. events st' = events st0 @ new \<and> calls_at (Suc 0) new = [(''v'', TypeSRV)]))"
proof -
  from run_dispatch(1) obtain s1 where
    r1: "naptrDispatch (resolveDNS (Suc 0) E0 C0) 0 ''r'' naptrN st0 = Some s1" by auto
  from run_dispatch(2) obtain s2 where
    r2: "naptrDispatch (resolveDNS (Suc 0) E0 C0) 0 ''r'' naptrA st0 = Some s2" by auto
  from run_dispatch(3) obtain s3 where
    r3: "naptrDispatch (resolveDNS (Suc 0) E0 C0) 0 ''r'' naptrV st0 = Some s3" by auto
  have f: "Flags naptrN = ''''" "Replacement naptrN = ''n''"
    "Flags naptrA = ''A''" "Replacement naptrA = ''a''"
    "Flags naptrV = ''S''" "Replacement naptrV = ''v''"
    by (simp_all add: naptrN_def naptrA_def naptrV_def)
  from naptr_flags_dispatch[OF r1] naptr_flags_dispatch[OF r2] naptr_flags_dispatch[OF r3] r1 r2 r3
  show ?thesis unfolding f by simp blast
qed

text \<open>
  C5 (no bound on the chase depth). For every \<open>n\<close> and every query name there is a zone,
  \<open>growEnv (length query + Suc n)\<close>, on which the pass returns after an exchange at depth
  \<open>n + 1\<close>; and on \<open>loopEnv\<close> no depth bound \<open>n\<close> is enough for the pass to return.
\<close>

theorem resolveDNS_depth_unbounded:
  "(\<exists>st'. resolveDNS (Suc (Suc n)) (growEnv (length query + Suc n)) C 0 resolver query TypeNAPTR st
            = Some st' \<and>
      Exchange (Suc n) (replicate (Suc n) CHR ''x'' @ query) TypeNAPTR \<in> set (events st')) \<and>
   resolveDNS n loopEnv C 0 resolver query TypeNAPTR st = None"
  using resolveDNS_growEnv[of query "Suc n" "length query + Suc n" C 0 resolver TypeNAPTR st]
  by (simp add: resolveDNS_loopEnv)

lemma naptrDispatch_other:
  "Flags r \<noteq> '''' \<Longrightarrow> Flags r \<noteq> ''A'' \<Longrightarrow> Flags r \<noteq> ''S'' \<Longrightarrow>
     naptrDispatch rec d resolver r st = Some st"
  by (simp add: naptrDispatch_def)

lemma chaseNAPTR_skip:
  assumes "naptrDispatch rec d resolver r = Some"
  shows "chaseNAPTR rec d resolver (pre @ r # post) st = chaseNAPTR rec d resolver (pre @ post) st"
  using assms by (induction pre arbitrary: st) (auto split: option.splits)

text \<open>
  C10 (a NAPTR record with other flags is skipped). For a record whose flags are none of
  \<^verbatim>\<open>""\<close>, \<^verbatim>\<open>"A"\<close>, \<^verbatim>\<open>"S"\<close>, the switch returns the state unchanged (no exchange, no logged
  error), and the chase of a batch that holds the record is the chase of the batch without
  it.
\<close>

theorem naptr_unknown_flags_skipped:
  assumes "Flags r \<noteq> ''''" and "Flags r \<noteq> ''A''" and "Flags r \<noteq> ''S''"
  shows "naptrDispatch (resolveDNS n E C) d resolver r st = Some st \<and>
         chaseNAPTR (resolveDNS n E C) d resolver (pre @ r # post) st =
           chaseNAPTR (resolveDNS n E C) d resolver (pre @ post) st"
proof -
  have "naptrDispatch (resolveDNS n E C) d resolver r = Some"
    using assms by (intro ext) (simp add: naptrDispatch_def)
  from chaseNAPTR_skip[OF this] assms show ?thesis by (simp add: naptrDispatch_def)
qed

theorem naptr_unknown_flags_skipped_witness:
  "Flags naptrU \<noteq> '''' \<and> Flags naptrU \<noteq> ''A'' \<and> Flags naptrU \<noteq> ''S'' \<and>
   Service naptrU = discoveryDDDSDNSName \<and>
   naptrDispatch (resolveDNS (Suc 0) E0 C0) 0 ''r'' naptrU st0 = Some st0 \<and>
   chaseNAPTR (resolveDNS (Suc 0) E0 C0) 0 ''r'' ([naptrN] @ naptrU # [naptrA]) st0 =
     chaseNAPTR (resolveDNS (Suc 0) E0 C0) 0 ''r'' ([naptrN] @ [naptrA]) st0 \<and>
   map_option events (chaseNAPTR (resolveDNS (Suc 0) E0 C0) 0 ''r'' ([naptrN] @ [naptrA]) st0) =
     Some [Exchange 1 ''n'' TypeNAPTR, Exchange 1 ''a'' TypeAAAA, Exchange 1 ''a'' TypeA,
           Hint ''10.0.0.5'']"
proof -
  have f: "Flags naptrU \<noteq> ''''" "Flags naptrU \<noteq> ''A''" "Flags naptrU \<noteq> ''S''"
    by (simp_all add: naptrU_def)
  have r: "map_option events (chaseNAPTR (resolveDNS (Suc 0) E0 C0) 0 ''r'' ([naptrN] @ [naptrA]) st0) =
     Some [Exchange 1 ''n'' TypeNAPTR, Exchange 1 ''a'' TypeAAAA, Exchange 1 ''a'' TypeA,
           Hint ''10.0.0.5'']"
    by (simp add: ev naptrN_def)
  from naptr_unknown_flags_skipped[OF f, of "Suc 0" E0 C0 0 "''r''" st0 "[naptrN]" "[naptrA]"] f r
  show ?thesis by (simp add: naptrU_def)
qed

section \<open>Properties of the orchestrator and the fetcher\<close>

text \<open>The requests a fetch adds, and the files it leaves alone.\<close>

lemma requests_logError [simp]: "requests (logError m v w) = requests w"
  by (simp add: logError_def)

lemma files_logError [simp]: "files (logError m v w) = files w"
  by (simp add: logError_def)

lemma fetchHTTP_requests: "requests (snd (fetchHTTP M url w)) = requests w @ [url]"
  by (simp add: fetchHTTP_def Let_def split: http_result.splits)

lemma fetchHTTP_files: "files (snd (fetchHTTP M url w)) = files w"
  by (simp add: fetchHTTP_def Let_def split: http_result.splits)

lemma writeTarEntry_requests: "requests (snd (writeTarEntry M p c f w)) = requests w"
  by (simp add: writeTarEntry_def Let_def)

lemma extractTRCs_requests: "requests (snd (extractTRCs M C items w)) = requests w"
proof (induction M C items w rule: extractTRCs.induct)
  case (3 M C hdr content copyFails rest w)
  show ?case
  proof (cases "Typeflag hdr = TypeReg")
    case False
    then show ?thesis by simp
  next
    case reg: True
    show ?thesis
    proof (cases "Base (Name hdr) = ''.''")
      case True
      with reg 3(1) show ?thesis by simp
    next
      case False
      let ?p = "Join [SciondConfigDir C, ''certs'', Base (Name hdr)]"
      obtain e w1 where wr: "writeTarEntry M ?p content copyFails w = (e, w1)"
        by (cases "writeTarEntry M ?p content copyFails w")
      have r1: "requests w1 = requests w"
        using writeTarEntry_requests[of M ?p content copyFails w] wr by simp
      show ?thesis
      proof (cases e)
        case None
        with reg False wr 3(2)[OF reg refl False refl wr[symmetric, unfolded None]] r1
        show ?thesis by simp
      next
        case (Some a)
        with reg False wr r1 show ?thesis by simp
      qed
    qed
  qed
qed simp_all

lemma pullTopology_requests:
  "requests (snd (pullTopology M C addr w)) =
     requests w @ [buildTopologyURL (IP addr) (TCPAddr.Port addr)]"
proof -
  let ?url = "buildTopologyURL (IP addr) (TCPAddr.Port addr)"
  obtain r w1 where f: "fetchHTTP M ?url w = (r, w1)" by (cases "fetchHTTP M ?url w")
  have "requests w1 = requests w @ [?url]" using fetchHTTP_requests[of M ?url w] f by simp
  then show ?thesis using f
    by (simp add: pullTopology_def Let_def split: sum.splits write_outcome.splits)
qed

lemma pullTRCs_requests:
  "requests (snd (pullTRCs M C addr w)) =
     requests w @ [buildTRCsURL (IP addr) (TCPAddr.Port addr)]"
proof -
  let ?url = "buildTRCsURL (IP addr) (TCPAddr.Port addr)"
  obtain r w1 where f: "fetchHTTP M ?url w = (r, w1)" by (cases "fetchHTTP M ?url w")
  have "requests w1 = requests w @ [?url]" using fetchHTTP_requests[of M ?url w] f by simp
  then show ?thesis using f
    by (simp add: pullTRCs_def Let_def extractTRCs_requests split: sum.splits)
qed

lemma pullTopology_rejects:
  assumes "httpGet M (buildTopologyURL (IP addr) (TCPAddr.Port addr)) = Response status r"
    and "status \<noteq> StatusOK \<or> (\<exists>raw. readAll r = Inr raw \<and> \<not> validTopology M raw)"
  shows "fst (pullTopology M C addr w) \<noteq> None \<and> files (snd (pullTopology M C addr w)) = files w"
  using assms
  by (auto simp: pullTopology_def fetchHTTP_def Let_def split: sum.splits)

lemma extractTRCs_nonregular:
  assumes "Typeflag hdr \<noteq> TypeReg"
  shows "fst (extractTRCs M C (pre @ NextEntry hdr content copyFails # post) w) \<noteq> None \<and>
         snd (extractTRCs M C (pre @ NextEntry hdr content copyFails # post) w) =
           snd (extractTRCs M C pre w)"
proof (induction M C pre w rule: extractTRCs.induct)
  case (1 M C w)
  from assms show ?case by simp
next
  case (2 M C err rest w)
  show ?case by simp
next
  case (3 M C h c f rest w)
  show ?case
  proof (cases "Typeflag h = TypeReg")
    case False
    then show ?thesis by simp
  next
    case reg: True
    show ?thesis
    proof (cases "Base (Name h) = ''.''")
      case True
      with reg 3(1) show ?thesis by simp
    next
      case False
      let ?p = "Join [SciondConfigDir C, ''certs'', Base (Name h)]"
      obtain e w1 where wr: "writeTarEntry M ?p c f w = (e, w1)"
        by (cases "writeTarEntry M ?p c f w")
      show ?thesis
      proof (cases e)
        case None
        with reg False wr 3(2)[OF reg refl False refl wr[symmetric, unfolded None]]
        show ?thesis by simp
      next
        case (Some a)
        with reg False wr show ?thesis by simp
      qed
    qed
  qed
qed

text \<open>
  C6 (a non-regular archive entry aborts the trust-root fetch). As amended: when the archive
  holds an entry that is not a regular file, \<^verbatim>\<open>pullTRCs\<close> returns an error, and the state
  it leaves is the state left by extracting the entries before that entry only: nothing
  is written for the entry or for any entry after it.
\<close>

theorem trcs_abort_at_nonregular_entry:
  assumes "httpGet M (buildTRCsURL (IP addr) (TCPAddr.Port addr)) = Response StatusOK r"
    and "tarItems r = pre @ NextEntry hdr content copyFails # post"
    and "Typeflag hdr \<noteq> TypeReg"
  shows "fst (pullTRCs M C addr w) \<noteq> None \<and>
         snd (pullTRCs M C addr w) =
           snd (extractTRCs M C pre
                  (w\<lparr>requests := requests w @ [buildTRCsURL (IP addr) (TCPAddr.Port addr)]\<rparr>))"
  using assms(1,2) extractTRCs_nonregular[OF assms(3), of M C pre content copyFails post]
  by (simp add: pullTRCs_def fetchHTTP_def Let_def)

theorem trcs_abort_at_nonregular_entry_witness:
  "httpGet M1 (buildTRCsURL (IP addr1) (TCPAddr.Port addr1)) =
     Response StatusOK \<lparr>readAll = Inr '''', tarItems = archive1\<rparr> \<and>
   Typeflag \<lparr>Typeflag = TypeDir, Name = ''bundle/''\<rparr> \<noteq> TypeReg \<and>
   fst (pullTRCs M1 C0 addr1 w0) \<noteq> None \<and>
   snd (pullTRCs M1 C0 addr1 w0) =
     snd (extractTRCs M1 C0
            [NextEntry \<lparr>Typeflag = TypeReg, Name = ''bundle/trc1.crt''\<rparr> ''DATA'' False]
            (w0\<lparr>requests := requests w0 @ [buildTRCsURL (IP addr1) (TCPAddr.Port addr1)]\<rparr>))"
proof -
  have g: "httpGet M1 (buildTRCsURL (IP addr1) (TCPAddr.Port addr1)) =
     Response StatusOK \<lparr>readAll = Inr '''', tarItems = archive1\<rparr>"
    by (simp add: M1_def addr1_def trcsURL0 StatusOK_def)
  have t: "tarItems \<lparr>readAll = Inr '''', tarItems = archive1\<rparr> =
     [NextEntry \<lparr>Typeflag = TypeReg, Name = ''bundle/trc1.crt''\<rparr> ''DATA'' False] @
     NextEntry \<lparr>Typeflag = TypeDir, Name = ''bundle/''\<rparr> '''' False #
     [NextEntry \<lparr>Typeflag = TypeReg, Name = ''trc2.crt''\<rparr> ''MORE'' False]"
    by (simp add: archive1_def)
  have n: "Typeflag \<lparr>Typeflag = TypeDir, Name = ''bundle/''\<rparr> \<noteq> TypeReg"
    by (simp add: TypeDir_def TypeReg_def)
  from trcs_abort_at_nonregular_entry[OF g t n, where C = C0 and w = w0] g n show ?thesis by simp
qed

text \<open>
  The statement with \<open>no certificate file is written\<close> fails on \<open>archive1\<close>: the fetch
  ends in the directory error after \<open>trc1.crt\<close> has been written.
\<close>

theorem trcs_written_before_directory_entry:
  "NextEntry \<lparr>Typeflag = TypeDir, Name = ''bundle/''\<rparr> '''' False \<in> set archive1 \<and>
   httpGet M1 (buildTRCsURL (IP addr1) (TCPAddr.Port addr1)) =
     Response StatusOK \<lparr>readAll = Inr '''', tarItems = archive1\<rparr> \<and>
   fst (pullTRCs M1 C0 addr1 w0) =
     Some ''TRCs archive must be composed of TRCs only, directory found'' \<and>
   files w0 ''/etc/scion/certs/trc1.crt'' = None \<and>
   files (snd (pullTRCs M1 C0 addr1 w0)) ''/etc/scion/certs/trc1.crt'' = Some ''DATA''"
  by (simp add: main_ev M1_def archive1_def addr1_def)

text \<open>
  Where a regular file is written. A base name other than \<^verbatim>\<open>.\<close>, \<^verbatim>\<open>..\<close> and \<^verbatim>\<open>/\<close> holds
  no slash, and the path joined from it is the path of the certificates directory, a slash
  and that name. An entry whose base name is \<^verbatim>\<open>.\<close> (the empty name among them) is logged
  and skipped.
\<close>

lemma splitSlash_nonempty: "splitSlash p \<noteq> []"
  by (induction p) (auto split: list.splits)

lemma splitSlash_append:
  "splitSlash (a @ CHR ''/'' # b) = splitSlash a @ splitSlash b"
proof (induction a)
  case Nil
  show ?case by simp
next
  case (Cons c a)
  obtain e es where s: "splitSlash a = e # es"
    using splitSlash_nonempty[of a] by (cases "splitSlash a") auto
  show ?case using Cons.IH s by simp
qed

lemma splitSlash_plain: "CHR ''/'' \<notin> set n \<Longrightarrow> splitSlash n = [n]"
  by (induction n) auto

lemma cleanElems_append:
  "cleanElems r out (xs @ ys) = cleanElems r (rev (cleanElems r out xs)) ys"
  by (induction r out xs rule: cleanElems.induct) (auto split: list.splits)

lemma cleanElems_plain:
  "n \<noteq> [] \<Longrightarrow> n \<noteq> ''.'' \<Longrightarrow> n \<noteq> ''..'' \<Longrightarrow> cleanElems r out [n] = rev out @ [n]"
  by simp

lemma joinSlash_snoc:
  "xs \<noteq> [] \<Longrightarrow> joinSlash (xs @ [n]) = joinSlash xs @ CHR ''/'' # n"
  by (induction xs rule: joinSlash.induct) auto

lemma cleanElems_no_empty:
  "[] \<notin> set out \<Longrightarrow> [] \<notin> set (cleanElems r out xs)"
  by (induction r out xs rule: cleanElems.induct) (auto split: list.splits)

lemma joinSlash_nonempty: "xs \<noteq> [] \<Longrightarrow> [] \<notin> set xs \<Longrightarrow> joinSlash xs \<noteq> []"
  by (induction xs rule: joinSlash.induct) auto

lemma Clean_snoc:
  assumes q: "q \<noteq> []" and n: "CHR ''/'' \<notin> set n" "n \<noteq> []" "n \<noteq> ''.''" "n \<noteq> ''..''"
    and e: "cleanElems (hd q = CHR ''/'') [] (splitSlash q) \<noteq> []"
  shows "Clean (q @ CHR ''/'' # n) = Clean q @ CHR ''/'' # n"
proof -
  let ?r = "hd q = CHR ''/''"
  let ?E = "cleanElems ?r [] (splitSlash q)"
  have h: "hd (q @ CHR ''/'' # n) = hd q" using q by simp
  have "cleanElems ?r [] (splitSlash (q @ CHR ''/'' # n)) = ?E @ [n]"
    using n by (simp add: splitSlash_append splitSlash_plain cleanElems_append[of ?r "[]" "splitSlash q" "[n]"])
  then have j: "joinSlash (cleanElems ?r [] (splitSlash (q @ CHR ''/'' # n))) = joinSlash ?E @ CHR ''/'' # n"
    using e by (simp add: joinSlash_snoc)
  have ne: "joinSlash ?E \<noteq> []"
    using e cleanElems_no_empty[of "[]" ?r "splitSlash q"] by (simp add: joinSlash_nonempty)
  show ?thesis
  proof (cases ?r)
    case True
    with q h j show ?thesis by (simp add: Clean_def Let_def)
  next
    case False
    with q h j ne show ?thesis by (simp add: Clean_def Let_def)
  qed
qed

lemma Base_nonempty: "Base p \<noteq> []"
  by (simp add: Base_def Let_def)

lemma Base_no_slash: "Base p \<noteq> ''/'' \<Longrightarrow> CHR ''/'' \<notin> set (Base p)"
  by (auto simp: Base_def Let_def split: if_splits dest: set_takeWhileD)

lemma certs_elems:
  "cleanElems r [] (splitSlash (d @ CHR ''/'' # ''certs'')) \<noteq> []"
  by (simp add: splitSlash_append splitSlash_plain cleanElems_append[of r "[]" "splitSlash d" "[''certs'']"])

lemma Join_certs:
  assumes n: "CHR ''/'' \<notin> set n" "n \<noteq> []" "n \<noteq> ''.''" "n \<noteq> ''..''"
  shows "Join [dir, ''certs'', n] = Join [dir, ''certs''] @ CHR ''/'' # n"
proof (cases "dir = []")
  case True
  have "Clean (''certs'' @ CHR ''/'' # n) = Clean ''certs'' @ CHR ''/'' # n"
    by (rule Clean_snoc) (use n in \<open>simp_all add: splitSlash_plain\<close>)
  with True show ?thesis by (simp add: Join_def)
next
  case False
  let ?q = "dir @ CHR ''/'' # ''certs''"
  have "Clean (?q @ CHR ''/'' # n) = Clean ?q @ CHR ''/'' # n"
    by (rule Clean_snoc) (use n False certs_elems in simp_all)
  with False show ?thesis by (simp add: Join_def)
qed

lemma trc_path_inside_certs:
  assumes "Base name \<noteq> ''.''" and "Base name \<noteq> ''..''" and "Base name \<noteq> ''/''"
  shows "Join [dir, ''certs'', Base name] = Join [dir, ''certs''] @ CHR ''/'' # Base name \<and>
         CHR ''/'' \<notin> set (Base name)"
  using Join_certs[of "Base name" dir] Base_no_slash[of name] Base_nonempty[of name] assms
  by simp

lemma extractTRCs_dot_skipped:
  "Typeflag hdr = TypeReg \<Longrightarrow> Base (Name hdr) = ''.'' \<Longrightarrow>
     extractTRCs M C (NextEntry hdr content copyFails # rest) w =
       extractTRCs M C rest (logError ''Invalid TRC file name'' (Name hdr) w)"
  by simp

text \<open>
  C7 (written names are base names inside the certificates directory; degenerate names are
  skipped). A regular-file entry named \<^verbatim>\<open>..\<close> is not skipped: its base name is \<^verbatim>\<open>..\<close>, not
  \<^verbatim>\<open>.\<close>, the path joined from it is the configuration directory itself, outside the
  certificates directory, and the extraction writes to that path or aborts when it cannot
  be opened. The base name \<^verbatim>\<open>/\<close> likewise gives the certificates directory itself.
\<close>

theorem dotdot_entry_not_skipped:
  "Base ''..'' = ''..'' \<and>
   Join [SciondConfigDir C0, ''certs'', Base ''..''] = ''/etc/scion'' \<and>
   Base ''/'' = ''/'' \<and>
   Join [SciondConfigDir C0, ''certs'', Base ''/''] = ''/etc/scion/certs'' \<and>
   extractTRCs M C0 [NextEntry \<lparr>Typeflag = TypeReg, Name = ''..''\<rparr> ''DATA'' False] w0 =
     (if openFails M ''/etc/scion'' then (Some ''Bootstrapper could not store TRC'', w0)
      else (None, w0\<lparr>files := [''/etc/scion'' \<mapsto> ''DATA'']\<rparr>))"
  by (simp add: main_ev)

text \<open>
  C8 (a bad topology response aborts before anything is written). When the response to the
  topology request has a status other than 200, or a body that the topology parser
  rejects, \<^verbatim>\<open>pullTopology\<close> returns an error and leaves the files as they were, and so does
  the bootstrap attempt.
\<close>

theorem topology_rejected_before_write:
  assumes "serverAddr =
      (if TCPAddr.Port ipAddr = 0 then ipAddr\<lparr>TCPAddr.Port := uint (DiscoveryPort C)\<rparr> else ipAddr)"
    and "httpGet M (buildTopologyURL (IP serverAddr) (TCPAddr.Port serverAddr)) = Response status r"
    and "status \<noteq> StatusOK \<or> (\<exists>raw. readAll r = Inr raw \<and> \<not> validTopology M raw)"
  shows "fst (pullTopology M C serverAddr w) \<noteq> None \<and>
         files (snd (pullTopology M C serverAddr w)) = files w \<and>
         fst (tryBootstrapping M C (Received ipAddr) w) \<noteq> None \<and>
         files (snd (tryBootstrapping M C (Received ipAddr) w)) = files w"
proof -
  obtain e w1 where p: "pullTopology M C serverAddr w = (e, w1)"
    by (cases "pullTopology M C serverAddr w")
  from pullTopology_rejects[OF assms(2,3), of C w] p
  have e: "e \<noteq> None" and f: "files w1 = files w" by simp_all
  then obtain err where "e = Some err" by auto
  with p assms(1) have "tryBootstrapping M C (Received ipAddr) w = (Some err, w1)"
    by (simp add: tryBootstrapping_def Let_def)
  with p e f show ?thesis by simp
qed

theorem topology_rejected_before_write_witness:
  "httpGet M2 (buildTopologyURL ''10.0.0.5'' 8041) =
      Response 200 \<lparr>readAll = Inr ''not a topology'', tarItems = []\<rparr> \<and>
   \<not> validTopology M2 ''not a topology'' \<and>
   fst (tryBootstrapping M2 C0 (Received addr0) w0) \<noteq> None \<and>
   files (snd (tryBootstrapping M2 C0 (Received addr0) w0)) = files w0"
proof -
  let ?a = "addr0\<lparr>TCPAddr.Port := uint (DiscoveryPort C0)\<rparr>"
  have a: "?a = (if TCPAddr.Port addr0 = 0 then addr0\<lparr>TCPAddr.Port := uint (DiscoveryPort C0)\<rparr> else addr0)"
    by (simp add: addr0_def)
  have u: "buildTopologyURL (IP ?a) (TCPAddr.Port ?a) = buildTopologyURL ''10.0.0.5'' 8041"
    by (simp add: addr0_def C0_def)
  have g: "httpGet M2 (buildTopologyURL (IP ?a) (TCPAddr.Port ?a)) =
      Response 200 \<lparr>readAll = Inr ''not a topology'', tarItems = []\<rparr>"
    unfolding u topologyURL0 by (simp add: M2_def)
  have v: "(200::int) \<noteq> StatusOK \<or>
      (\<exists>raw. readAll \<lparr>readAll = Inr ''not a topology'', tarItems = []\<rparr> = Inr raw \<and> \<not> validTopology M2 raw)"
    by (simp add: M2_def)
  from topology_rejected_before_write[OF a g v, of w0] g v u
  show ?thesis by (simp add: M2_def)
qed

text \<open>
  C9 (the first hint, with the discovery port substituted when it has none, is the only
  address fetched from). For every received address, the server address keeps its IP and
  its port, with the discovery port in place of a port of zero; the attempt is the
  topology fetch and then, when that succeeded, the trust-root fetch, both on the server
  address; and the requests it adds are the topology URL of the server address, followed
  by its trust-root URL exactly when the topology fetch succeeded.
\<close>

theorem first_hint_gets_discovery_port:
  assumes "serverAddr =
      (if TCPAddr.Port ipAddr = 0 then ipAddr\<lparr>TCPAddr.Port := uint (DiscoveryPort C)\<rparr> else ipAddr)"
  shows "IP serverAddr = IP ipAddr \<and>
         TCPAddr.Port serverAddr =
           (if TCPAddr.Port ipAddr = 0 then uint (DiscoveryPort C) else TCPAddr.Port ipAddr) \<and>
         tryBootstrapping M C (Received ipAddr) w =
           (case pullTopology M C serverAddr w of
              (Some err, w1) \<Rightarrow> (Some err, w1)
            | (None, w1) \<Rightarrow> pullTRCs M C serverAddr w1) \<and>
         requests (snd (tryBootstrapping M C (Received ipAddr) w)) =
           requests w @
             (if fst (pullTopology M C serverAddr w) = None
              then [buildTopologyURL (IP serverAddr) (TCPAddr.Port serverAddr),
                    buildTRCsURL (IP serverAddr) (TCPAddr.Port serverAddr)]
              else [buildTopologyURL (IP serverAddr) (TCPAddr.Port serverAddr)])"
proof -
  obtain e w1 where p: "pullTopology M C serverAddr w = (e, w1)"
    by (cases "pullTopology M C serverAddr w")
  have r1: "requests w1 = requests w @ [buildTopologyURL (IP serverAddr) (TCPAddr.Port serverAddr)]"
    using pullTopology_requests[of M C serverAddr w] p by simp
  have a: "IP serverAddr = IP ipAddr \<and>
         TCPAddr.Port serverAddr =
           (if TCPAddr.Port ipAddr = 0 then uint (DiscoveryPort C) else TCPAddr.Port ipAddr)"
    using assms by simp
  show ?thesis
  proof (cases e)
    case (Some err)
    with p assms r1 a show ?thesis by (simp add: tryBootstrapping_def Let_def)
  next
    case None
    obtain e2 w2 where q: "pullTRCs M C serverAddr w1 = (e2, w2)"
      by (cases "pullTRCs M C serverAddr w1")
    have r2: "requests w2 = requests w1 @ [buildTRCsURL (IP serverAddr) (TCPAddr.Port serverAddr)]"
      using pullTRCs_requests[of M C serverAddr w1] q by simp
    from None p q assms r1 r2 a show ?thesis
      by (cases e2) (simp_all add: tryBootstrapping_def Let_def)
  qed
qed

theorem first_hint_gets_discovery_port_witness:
  "TCPAddr.Port addr0 = 0 \<and> uint (DiscoveryPort C0) = 8041 \<and>
   fst (tryBootstrapping M3 C0 (Received addr0) w0) = None \<and>
   requests (snd (tryBootstrapping M3 C0 (Received addr0) w0)) =
     requests w0 @ [''http://10.0.0.5:8041/scion/discovery/v1/topology.json'',
                    ''http://10.0.0.5:8041/scion/discovery/v1/trcs.tar''] \<and>
   TCPAddr.Port addr2 = 8042 \<and>
   fst (tryBootstrapping M3 C0 (Received addr2) w0) = Some ''HTTP request failed'' \<and>
   requests (snd (tryBootstrapping M3 C0 (Received addr2) w0)) =
     requests w0 @ [''http://10.0.0.5:8042/scion/discovery/v1/topology.json'']"
proof -
  let ?a = "addr0\<lparr>TCPAddr.Port := uint (DiscoveryPort C0)\<rparr>"
  have p: "TCPAddr.Port addr0 = 0" "TCPAddr.Port addr2 = 8042" by (simp_all add: addr0_def addr2_def)
  have u: "uint (DiscoveryPort C0) = 8041" by (simp add: C0_def)
  have s0: "?a = (if TCPAddr.Port addr0 = 0 then addr0\<lparr>TCPAddr.Port := uint (DiscoveryPort C0)\<rparr> else addr0)"
    using p by simp
  have s2: "addr2 = (if TCPAddr.Port addr2 = 0 then addr2\<lparr>TCPAddr.Port := uint (DiscoveryPort C0)\<rparr> else addr2)"
    using p by simp
  have t0: "fst (pullTopology M3 C0 ?a w0) = None"
    using first_hint_gets_discovery_port[OF s0, of M3 w0] run_M3
    by (auto split: prod.splits option.splits)
  have i: "IP ?a = ''10.0.0.5''" "TCPAddr.Port ?a = 8041"
    "IP addr2 = ''10.0.0.5''" "TCPAddr.Port addr2 = 8042"
    by (simp_all add: addr0_def addr2_def C0_def)
  have t2: "fst (pullTopology M3 C0 addr2 w0) \<noteq> None"
    using first_hint_gets_discovery_port[OF s2, of M3 w0] run_M3_port
    by (auto split: prod.splits option.splits)
  from first_hint_gets_discovery_port[OF s0, of M3 w0, THEN conjunct2, THEN conjunct2, THEN conjunct2]
  have r0: "requests (snd (tryBootstrapping M3 C0 (Received addr0) w0)) =
     requests w0 @ [''http://10.0.0.5:8041/scion/discovery/v1/topology.json'',
                    ''http://10.0.0.5:8041/scion/discovery/v1/trcs.tar'']"
    using t0 by (simp only: i topologyURL0 trcsURL0 if_True simp_thms)
  from first_hint_gets_discovery_port[OF s2, of M3 w0, THEN conjunct2, THEN conjunct2, THEN conjunct2]
  have r2: "requests (snd (tryBootstrapping M3 C0 (Received addr2) w0)) =
     requests w0 @ [''http://10.0.0.5:8042/scion/discovery/v1/topology.json'']"
    using t2 by (simp only: i topologyURL2 if_False simp_thms)
  from p u run_M3 run_M3_port r0 r2 show ?thesis by simp
qed

end
